theory Spec2Isabelle
  imports Complex_Main "HOL-Library.Multiset"
begin

section \<open>Names of segment files and their order\<close>

text \<open>
  The program stores the history of one ticker in files \<^verbatim>\<open>data_0.csv\<close>,
  \<^verbatim>\<open>data_1.csv\<close>, ... of one directory. All paths of one ticker share the prefix
  \<^verbatim>\<open>os.path.join(ticker_dir, ...)\<close>, so a file is identified here by its base name.
\<close>

text \<open>Python's \<^verbatim>\<open>str(i)\<close> for a non-negative integer: its decimal digits.\<close>

definition digit_char :: "nat \<Rightarrow> char" where
  "digit_char k = ''0123456789'' ! k"

fun str_nat :: "nat \<Rightarrow> string" where
  "str_nat n = (if n < 10 then [digit_char n] else str_nat (n div 10) @ [digit_char (n mod 10)])"

declare str_nat.simps [simp del]

text \<open>\<^verbatim>\<open>f"{base_filename}_{i}.csv"\<close> with the default \<^verbatim>\<open>base_filename="data"\<close>.\<close>

definition seg_name :: "nat \<Rightarrow> string" where
  "seg_name i = ''data_'' @ str_nat i @ ''.csv''"

text \<open>
  Python compares strings code point by code point, a proper prefix being smaller.
  \<^verbatim>\<open>sorted\<close> on a list of strings is modelled by insertion sort under this order.
\<close>

fun str_le :: "string \<Rightarrow> string \<Rightarrow> bool" where
  "str_le [] ys = True"
| "str_le (x # xs) [] = False"
| "str_le (x # xs) (y # ys) =
     ((of_char x :: nat) < of_char y \<or> (x = y \<and> str_le xs ys))"

fun insort_str :: "string \<Rightarrow> string list \<Rightarrow> string list" where
  "insort_str s [] = [s]"
| "insort_str s (t # ts) = (if str_le s t then s # t # ts else t # insort_str s ts)"

fun sorted_py :: "string list \<Rightarrow> string list" where
  "sorted_py [] = []"
| "sorted_py (s # ss) = insort_str s (sorted_py ss)"

section \<open>Files and directories\<close>

text \<open>
  A CSV file is its list of text lines. Each line is kept as the text of its first
  column (the index column that \<^verbatim>\<open>index_col=0\<close> selects) and the text of the remaining
  columns. The flag \<open>unreadable\<close> stands for every condition of the environment under
  which reading the file raises (permissions, an I/O fault, bytes that the CSV reader
  rejects).
\<close>

type_synonym line = "string \<times> string"

record csv_file =
  content :: "line list"
  unreadable :: bool

text \<open>A line occupies its two texts, the comma between them and the newline.\<close>

definition line_bytes :: "line \<Rightarrow> nat" where
  "line_bytes l = length (fst l) + 1 + length (snd l) + 1"

definition getsize :: "csv_file \<Rightarrow> nat" where
  "getsize f = sum_list (map line_bytes (content f))"

text \<open>
  A directory lists its entries in the order the operating system yields them: an
  association list from base names to files.
\<close>

type_synonym directory = "(string \<times> csv_file) list"

definition exists :: "directory \<Rightarrow> string \<Rightarrow> bool" where
  "exists d name = (name \<in> set (map fst d))"

text \<open>
  \<^verbatim>\<open>glob.glob(os.path.join(ticker_dir, "*.csv"))\<close>: the entries whose name ends in
  \<^verbatim>\<open>.csv\<close>; the pattern \<^verbatim>\<open>*\<close> does not match a leading dot.
\<close>

definition endswith :: "string \<Rightarrow> string \<Rightarrow> bool" where
  "endswith s suf = (length suf \<le> length s \<and> drop (length s - length suf) s = suf)"

definition matches_csv :: "string \<Rightarrow> bool" where
  "matches_csv name = (endswith name ''.csv'' \<and> take 1 name \<noteq> ''.'')"

definition glob_csv :: "directory \<Rightarrow> string list" where
  "glob_csv d = filter matches_csv (map fst d)"

text \<open>
  \<^verbatim>\<open>get_next_available_filename\<close>: the \<^verbatim>\<open>while True\<close> loop that counts \<open>i\<close>
  up from 0 until \<^verbatim>\<open>data_i.csv\<close> does not exist. The loop has no bound of its own, so
  it is a partial function: \<open>None\<close> is a run that never returns.
\<close>

partial_function (option) next_from :: "directory \<Rightarrow> nat \<Rightarrow> string option" where
  "next_from d i =
     (if \<not> exists d (seg_name i) then Some (seg_name i) else next_from d (i + 1))"

definition get_next_available_filename :: "directory \<Rightarrow> string option" where
  "get_next_available_filename d = next_from d 0"

text \<open>
  The Ticker Directory of the specification: segments with the ordinals
  \<open>0, ..., n - 1\<close> and no gap, as the first-free-slot scan produces them.
\<close>

definition layout :: "csv_file list \<Rightarrow> directory" where
  "layout fs = zip (map seg_name [0..<length fs]) fs"

text \<open>
  The file that both the resolver and the writer take as the last one:
  \<^verbatim>\<open>csv_files = sorted(glob.glob(...))\<close> followed by \<^verbatim>\<open>csv_files[-1]\<close>; \<open>None\<close> when
  the list is empty (the source tests \<^verbatim>\<open>if not csv_files\<close> before indexing).
\<close>

definition last_csv :: "directory \<Rightarrow> string option" where
  "last_csv d =
     (let csv_files = sorted_py (glob_csv d)
      in if csv_files = [] then None else Some (last csv_files))"

section \<open>Timestamps and their text format\<close>

text \<open>
  A \<^verbatim>\<open>pd.Timestamp\<close> with the fields of \<^verbatim>\<open>datetime\<close>: the calendar date, the time
  of day, the part below one second (microseconds and nanoseconds together, in
  nanoseconds) and the offset from UTC in seconds, \<open>None\<close> for a naive timestamp.
\<close>

record Timestamp =
  year :: nat
  month :: nat
  day :: nat
  hour :: nat
  minute :: nat
  second :: nat
  nanos :: nat
  utcoffset :: "int option"

text \<open>
  The instant of a timestamp is its \<^verbatim>\<open>.value\<close>: nanoseconds since 1970-01-01 00:00 UTC
  (for a naive timestamp, of its wall clock). Timestamps are compared, sorted and
  shifted by a \<^verbatim>\<open>Timedelta\<close> through this number. The day number of a date is
  computed in the proleptic Gregorian calendar.
\<close>

definition days_from_civil :: "int \<Rightarrow> int \<Rightarrow> int \<Rightarrow> int" where
  "days_from_civil y m d =
     (let y' = (if m \<le> 2 then y - 1 else y);
          era = y' div 400;
          yoe = y' mod 400;
          doy = (153 * (if m > 2 then m - 3 else m + 9) + 2) div 5 + d - 1;
          doe = yoe * 365 + yoe div 4 - yoe div 100 + doy
      in era * 146097 + doe - 719468)"

definition offset_seconds :: "Timestamp \<Rightarrow> int" where
  "offset_seconds t = (case utcoffset t of None \<Rightarrow> 0 | Some off \<Rightarrow> off)"

definition value_ns :: "Timestamp \<Rightarrow> int" where
  "value_ns t =
     ((days_from_civil (int (year t)) (int (month t)) (int (day t)) * 86400
        + int (hour t) * 3600 + int (minute t) * 60 + int (second t))
       - offset_seconds t) * 1000000000 + int (nanos t)"

text \<open>The fields a calendar admits.\<close>

definition is_leap :: "nat \<Rightarrow> bool" where
  "is_leap y = (y mod 4 = 0 \<and> (y mod 100 \<noteq> 0 \<or> y mod 400 = 0))"

definition days_in_month :: "nat \<Rightarrow> nat \<Rightarrow> nat" where
  "days_in_month y m =
     (if m = 2 then (if is_leap y then 29 else 28)
      else if m = 4 \<or> m = 6 \<or> m = 9 \<or> m = 11 then 30 else 31)"

definition valid_fields :: "Timestamp \<Rightarrow> bool" where
  "valid_fields t =
     (1 \<le> month t \<and> month t \<le> 12 \<and> 1 \<le> day t \<and> day t \<le> days_in_month (year t) (month t)
      \<and> hour t < 24 \<and> minute t < 60 \<and> second t < 60)"

text \<open>
  A format string is a list of directives. The one format of the program,
  \<^verbatim>\<open>'%Y-%m-%d %H:%M:%S%z'\<close>, is the \<^verbatim>\<open>date_format\<close> of both \<^verbatim>\<open>to_csv\<close> calls and the
  \<^verbatim>\<open>known_csv_datetime_format\<close> of the resolver.
\<close>

datatype directive = Year | Month | Day | Hour | Minute | Second | Zone | Lit char

definition known_csv_datetime_format :: "directive list" where
  "known_csv_datetime_format =
     [Year, Lit CHR ''-'', Month, Lit CHR ''-'', Day, Lit CHR '' '',
      Hour, Lit CHR '':'', Minute, Lit CHR '':'', Second, Zone]"

text \<open>\<^verbatim>\<open>strftime\<close>: numbers are printed in decimal and padded with zeros on the left.\<close>

definition zfill :: "nat \<Rightarrow> string \<Rightarrow> string" where
  "zfill w s = replicate (w - length s) CHR ''0'' @ s"

definition format_zone :: "int option \<Rightarrow> string" where
  "format_zone off =
     (case off of
        None \<Rightarrow> []
      | Some z \<Rightarrow>
          (let a = nat \<bar>z\<bar>
           in (if z < 0 then CHR ''-'' else CHR ''+'')
              # zfill 2 (str_nat (a div 3600)) @ zfill 2 (str_nat (a mod 3600 div 60))
              @ (if a mod 60 = 0 then [] else zfill 2 (str_nat (a mod 60)))))"

fun format_directive :: "directive \<Rightarrow> Timestamp \<Rightarrow> string" where
  "format_directive Year t = zfill 4 (str_nat (year t))"
| "format_directive Month t = zfill 2 (str_nat (month t))"
| "format_directive Day t = zfill 2 (str_nat (day t))"
| "format_directive Hour t = zfill 2 (str_nat (hour t))"
| "format_directive Minute t = zfill 2 (str_nat (minute t))"
| "format_directive Second t = zfill 2 (str_nat (second t))"
| "format_directive Zone t = format_zone (utcoffset t)"
| "format_directive (Lit c) t = [c]"

definition strftime :: "directive list \<Rightarrow> Timestamp \<Rightarrow> string" where
  "strftime fmt t = concat (map (\<lambda>dv. format_directive dv t) fmt)"

text \<open>
  The strict parser, \<^verbatim>\<open>pd.to_datetime(..., format=...)\<close> on one text: every directive
  consumes its part of the text, nothing may remain, and the fields must be those of a
  calendar date and a time of day. The parser is modelled on the fixed-width texts,
  which are the texts \<open>strftime\<close> produces: four digits for the year, two for each
  other number, and a zone written \<^verbatim>\<open>+HHMM\<close>, \<^verbatim>\<open>-HHMM\<close> or \<^verbatim>\<open>Z\<close>.
\<close>

definition digit_val :: "char \<Rightarrow> nat option" where
  "digit_val c =
     (let n = (of_char c :: nat) in if 48 \<le> n \<and> n \<le> 57 then Some (n - 48) else None)"

fun take_digits :: "nat \<Rightarrow> string \<Rightarrow> nat \<Rightarrow> (nat \<times> string) option" where
  "take_digits 0 s acc = Some (acc, s)"
| "take_digits (Suc w) [] acc = None"
| "take_digits (Suc w) (c # s) acc =
     (case digit_val c of None \<Rightarrow> None | Some v \<Rightarrow> take_digits w s (acc * 10 + v))"

definition parse_zone :: "string \<Rightarrow> (int \<times> string) option" where
  "parse_zone s =
     (case s of
        [] \<Rightarrow> None
      | c # r \<Rightarrow>
          if c = CHR ''Z'' then Some (0, r)
          else if c = CHR ''+'' \<or> c = CHR ''-'' then
            (case take_digits 2 r 0 of
               None \<Rightarrow> None
             | Some (h, r1) \<Rightarrow>
                 (case take_digits 2 r1 0 of
                    None \<Rightarrow> None
                  | Some (m, r2) \<Rightarrow>
                      if m < 60
                      then Some ((if c = CHR ''-'' then - 1 else 1) * (int h * 3600 + int m * 60), r2)
                      else None))
          else None)"

fun parse_directive :: "directive \<Rightarrow> string \<Rightarrow> Timestamp \<Rightarrow> (Timestamp \<times> string) option" where
  "parse_directive Year s t = map_option (\<lambda>(n, r). (t\<lparr>year := n\<rparr>, r)) (take_digits 4 s 0)"
| "parse_directive Month s t = map_option (\<lambda>(n, r). (t\<lparr>month := n\<rparr>, r)) (take_digits 2 s 0)"
| "parse_directive Day s t = map_option (\<lambda>(n, r). (t\<lparr>day := n\<rparr>, r)) (take_digits 2 s 0)"
| "parse_directive Hour s t = map_option (\<lambda>(n, r). (t\<lparr>hour := n\<rparr>, r)) (take_digits 2 s 0)"
| "parse_directive Minute s t = map_option (\<lambda>(n, r). (t\<lparr>minute := n\<rparr>, r)) (take_digits 2 s 0)"
| "parse_directive Second s t = map_option (\<lambda>(n, r). (t\<lparr>second := n\<rparr>, r)) (take_digits 2 s 0)"
| "parse_directive Zone s t = map_option (\<lambda>(z, r). (t\<lparr>utcoffset := Some z\<rparr>, r)) (parse_zone s)"
| "parse_directive (Lit c) s t = (case s of [] \<Rightarrow> None | x # r \<Rightarrow> if x = c then Some (t, r) else None)"

fun parse_directives :: "directive list \<Rightarrow> string \<Rightarrow> Timestamp \<Rightarrow> Timestamp option" where
  "parse_directives [] s t = (if s = [] then Some t else None)"
| "parse_directives (dv # fmt) s t =
     (case parse_directive dv s t of None \<Rightarrow> None | Some (t', r) \<Rightarrow> parse_directives fmt r t')"

text \<open>Fields that the format does not mention keep the defaults of \<^verbatim>\<open>strptime\<close>.\<close>

definition strptime_default :: Timestamp where
  "strptime_default =
     \<lparr>year = 1900, month = 1, day = 1, hour = 0, minute = 0, second = 0, nanos = 0,
      utcoffset = None\<rparr>"

definition strptime :: "directive list \<Rightarrow> string \<Rightarrow> Timestamp option" where
  "strptime fmt s =
     (case parse_directives fmt s strptime_default of
        None \<Rightarrow> None
      | Some t \<Rightarrow> if valid_fields t then Some t else None)"

section \<open>The Timestamp Resolver\<close>

text \<open>
  \<^verbatim>\<open>pd.read_csv(last_file, index_col=0)\<close>: the first line is the header, the index of
  the frame holds the first column of every later line. A file without any line raises
  \<^verbatim>\<open>EmptyDataError\<close>; any other failure to read is \<open>ReadFailure\<close>.
\<close>

datatype read_error = EmptyDataError | ReadFailure

definition read_csv :: "csv_file \<Rightarrow> read_error + string list" where
  "read_csv f =
     (if unreadable f then Inl ReadFailure
      else case content f of [] \<Rightarrow> Inl EmptyDataError | h # rows \<Rightarrow> Inr (map fst rows))"

text \<open>
  \<^verbatim>\<open>pd.to_datetime(index, format=..., utc=True)\<close> parses every entry or raises
  \<^verbatim>\<open>ValueError\<close> (here \<open>None\<close>); with \<^verbatim>\<open>utc=True\<close> the result is an index of UTC
  instants. \<^verbatim>\<open>pd.to_datetime(index, errors='coerce', utc=True)\<close> guesses the format of
  each entry and yields \<^verbatim>\<open>NaT\<close> (here \<open>None\<close>) where it cannot; the guessing parser
  of the library is the parameter \<open>lenient\<close>.
\<close>

definition to_datetime_format :: "directive list \<Rightarrow> string list \<Rightarrow> int list option" where
  "to_datetime_format fmt idx = those (map (\<lambda>s. map_option value_ns (strptime fmt s)) idx)"

definition to_datetime_coerce :: "(string \<Rightarrow> int option) \<Rightarrow> string list \<Rightarrow> int option list" where
  "to_datetime_coerce lenient idx = map lenient idx"

definition dropna :: "int option list \<Rightarrow> int list" where
  "dropna xs = List.map_filter (\<lambda>x. x) xs"

definition parse_index :: "(string \<Rightarrow> int option) \<Rightarrow> string list \<Rightarrow> int option list" where
  "parse_index lenient idx =
     (case to_datetime_format known_csv_datetime_format idx of
        Some vs \<Rightarrow> map Some vs
      | None \<Rightarrow> to_datetime_coerce lenient idx)"

text \<open>
  \<^verbatim>\<open>get_latest_timestamp_from_dir\<close>. The result is the instant of the UTC timestamp the
  source returns (\<^verbatim>\<open>utc=True\<close> already yields UTC, so lines 75-76 change nothing).
  Every exception of the \<^verbatim>\<open>try\<close> block ends in \<^verbatim>\<open>None\<close>: \<^verbatim>\<open>EmptyDataError\<close>
  passes to the final \<^verbatim>\<open>return\<close> of the variable that is still \<^verbatim>\<open>None\<close>, a missing
  file and every other exception return \<^verbatim>\<open>None\<close> at once.
\<close>

definition get_latest_timestamp_from_dir ::
    "(string \<Rightarrow> int option) \<Rightarrow> directory \<Rightarrow> int option" where
  "get_latest_timestamp_from_dir lenient d =
     (case last_csv d of
        None \<Rightarrow> None
      | Some last_file \<Rightarrow>
          (case map_of d last_file of
             None \<Rightarrow> None
           | Some f \<Rightarrow>
               (case read_csv f of
                  Inl EmptyDataError \<Rightarrow> None
                | Inl ReadFailure \<Rightarrow> None
                | Inr idx \<Rightarrow>
                    if idx = [] then None
                    else
                      (let valid_timestamps = dropna (parse_index lenient idx)
                       in if valid_timestamps = [] then None
                          else Some (last (sort valid_timestamps))))))"

section \<open>Fetched data and the Reconciler\<close>

text \<open>
  The frame that \<^verbatim>\<open>yf.download\<close> returns: whether its index carries a time zone, the
  header line that names its columns, and its rows, each a timestamp and the text of
  the numeric fields.
\<close>

type_synonym row = "Timestamp \<times> string"

record frame =
  tz_aware :: bool
  columns :: line
  frame_rows :: "row list"

text \<open>
  \<^verbatim>\<open>tz_localize('UTC')\<close> keeps the wall clock of a naive timestamp and declares it UTC.
  \<^verbatim>\<open>tz_convert('UTC')\<close> keeps the instant and recomputes the fields for the offset 0.
\<close>

definition tz_localize_utc :: "Timestamp \<Rightarrow> Timestamp" where
  "tz_localize_utc t = t\<lparr>utcoffset := Some 0\<rparr>"

definition civil_from_days :: "int \<Rightarrow> int \<times> int \<times> int" where
  "civil_from_days z0 =
     (let z = z0 + 719468;
          era = z div 146097;
          doe = z mod 146097;
          yoe = (doe - doe div 1460 + doe div 36524 - doe div 146096) div 365;
          doy = doe - (365 * yoe + yoe div 4 - yoe div 100);
          mp = (5 * doy + 2) div 153;
          d = doy - (153 * mp + 2) div 5 + 1;
          m = (if mp < 10 then mp + 3 else mp - 9);
          y = yoe + era * 400
      in (if m \<le> 2 then y + 1 else y, m, d))"

definition timestamp_of_value :: "int \<Rightarrow> Timestamp" where
  "timestamp_of_value v =
     (let secs = v div 1000000000;
          sod = secs mod 86400;
          (y, m, d) = civil_from_days (secs div 86400)
      in \<lparr>year = nat y, month = nat m, day = nat d,
          hour = nat (sod div 3600), minute = nat (sod mod 3600 div 60), second = nat (sod mod 60),
          nanos = nat (v mod 1000000000), utcoffset = Some 0\<rparr>)"

definition tz_convert_utc :: "Timestamp \<Rightarrow> Timestamp" where
  "tz_convert_utc t = timestamp_of_value (value_ns t)"

text \<open>Lines 143-147: the index of the downloaded data is made UTC.\<close>

definition normalize_index :: "frame \<Rightarrow> row list" where
  "normalize_index data =
     (if \<not> tz_aware data then map (\<lambda>r. (tz_localize_utc (fst r), snd r)) (frame_rows data)
      else map (\<lambda>r. (tz_convert_utc (fst r), snd r)) (frame_rows data))"

text \<open>Line 149, \<^verbatim>\<open>data.sort_index()\<close>: the rows in ascending order of their instants.\<close>

definition sort_index :: "row list \<Rightarrow> row list" where
  "sort_index rows = sort_key (\<lambda>r. value_ns (fst r)) rows"

text \<open>
  Lines 143-153. A \<^verbatim>\<open>pd.Timestamp\<close> is always true in \<^verbatim>\<open>if latest_timestamp_from_csv\<close>,
  so the filter runs exactly when the resolver returned a timestamp.
\<close>

definition reconcile :: "int option \<Rightarrow> frame \<Rightarrow> row list" where
  "reconcile latest_timestamp_from_csv data =
     (let rows = sort_index (normalize_index data)
      in case latest_timestamp_from_csv of
           None \<Rightarrow> rows
         | Some latest \<Rightarrow> filter (\<lambda>r. value_ns (fst r) > latest) rows)"

section \<open>The Segment Writer\<close>

definition MAX_FILE_SIZE_MB :: nat where
  "MAX_FILE_SIZE_MB = 50"

definition MAX_FILE_SIZE_BYTES :: nat where
  "MAX_FILE_SIZE_BYTES = MAX_FILE_SIZE_MB * 1024 * 1024"

definition estimated_bytes_per_row :: nat where
  "estimated_bytes_per_row = 150"

text \<open>
  The functions of the writer take the cap as their first argument, the source reads
  the module constant \<open>MAX_FILE_SIZE_BYTES\<close>.
\<close>

definition path_getsize :: "directory \<Rightarrow> string \<Rightarrow> nat" where
  "path_getsize d name = (case map_of d name of None \<Rightarrow> 0 | Some f \<Rightarrow> getsize f)"

text \<open>
  \<^verbatim>\<open>to_csv(target, mode='a', header=write_header, index=True, date_format=...)\<close>:
  the header line when asked for, then one line per row with its timestamp in the
  format of the program, at the end of the target, which is created when missing.
\<close>

definition row_line :: "row \<Rightarrow> line" where
  "row_line r = (strftime known_csv_datetime_format (fst r), snd r)"

definition to_csv :: "directory \<Rightarrow> string \<Rightarrow> bool \<Rightarrow> line \<Rightarrow> row list \<Rightarrow> directory" where
  "to_csv d target write_header cols rows =
     (let new = (if write_header then [cols] else []) @ map row_line rows
      in if exists d target
         then map (\<lambda>(n, f). if n = target then (n, f\<lparr>content := content f @ new\<rparr>) else (n, f)) d
         else d @ [(target, \<lparr>content = new, unreadable = False\<rparr>)])"

text \<open>
  Lines 162-174: the target is the last file of the sorted listing, or a new file when
  that one has reached the cap or no file exists. (The \<^verbatim>\<open>FileNotFoundError\<close> branch
  needs a file to vanish between the listing and the size query.)
\<close>

definition initial_target :: "nat \<Rightarrow> directory \<Rightarrow> string option" where
  "initial_target cap d =
     (case last_csv d of
        None \<Rightarrow> get_next_available_filename d
      | Some target \<Rightarrow>
          if path_getsize d target \<ge> cap then get_next_available_filename d else Some target)"

text \<open>
  Line 201: \<^verbatim>\<open>max(1, int(MAX_FILE_SIZE_BYTES / estimated_bytes_per_row * 0.90))\<close>, in exact
  arithmetic: the floor of nine tenths of the quotient.
\<close>

definition num_rows_for_chunk :: "nat \<Rightarrow> nat" where
  "num_rows_for_chunk cap = max 1 ((cap * 9) div (estimated_bytes_per_row * 10))"

text \<open>
  Lines 179-196 of the loop body: the size of the target, whether a header is due, and
  the rollover to a new file. The result is the target to write to, the header flag
  and the tracked size.
\<close>

definition select_target :: "nat \<Rightarrow> directory \<Rightarrow> string \<Rightarrow> row list \<Rightarrow> (string \<times> bool \<times> nat) option" where
  "select_target cap d target rows_to_write =
     (let current_file_size = (if exists d target then path_getsize d target else 0);
          write_header = (\<not> exists d target \<or> current_file_size = 0);
          estimated_new_data_size = length rows_to_write * estimated_bytes_per_row
      in if current_file_size > 0 \<and> current_file_size + estimated_new_data_size > cap
         then map_option (\<lambda>t. (t, True, 0)) (get_next_available_filename d)
         else Some (target, write_header, current_file_size))"

text \<open>
  One pass through the loop body (lines 179-219): the directory after the write, the
  target of the next pass and the rows still to write.
\<close>

definition writer_step ::
    "nat \<Rightarrow> line \<Rightarrow> directory \<Rightarrow> string \<Rightarrow> row list \<Rightarrow> (directory \<times> string \<times> row list) option" where
  "writer_step cap cols d target rows_to_write =
     (case select_target cap d target rows_to_write of
        None \<Rightarrow> None
      | Some (tgt, write_header, current_file_size) \<Rightarrow>
          if length rows_to_write > 1
             \<and> length rows_to_write * estimated_bytes_per_row > cap \<and> current_file_size = 0
          then
            (let current_chunk = take (num_rows_for_chunk cap) rows_to_write;
                 remaining_rows = drop (num_rows_for_chunk cap) rows_to_write;
                 d1 = to_csv d tgt write_header cols current_chunk
             in if remaining_rows \<noteq> []
                then map_option (\<lambda>t. (d1, t, remaining_rows)) (get_next_available_filename d1)
                else Some (d1, tgt, remaining_rows))
          else Some (to_csv d tgt write_header cols rows_to_write, tgt, []))"

text \<open>The loop \<^verbatim>\<open>while not rows_to_write.empty\<close>.\<close>

function write_loop :: "nat \<Rightarrow> line \<Rightarrow> directory \<Rightarrow> string \<Rightarrow> row list \<Rightarrow> directory option" where
  "write_loop cap cols d target rows_to_write =
     (if rows_to_write = [] then Some d
      else
        (case writer_step cap cols d target rows_to_write of
           None \<Rightarrow> None
         | Some (d1, t1, rest) \<Rightarrow> write_loop cap cols d1 t1 rest))"
  by pat_completeness auto
termination
  by (relation "measure (\<lambda>(cap, cols, d, target, rows). length rows)")
     (auto simp: writer_step_def num_rows_for_chunk_def Let_def
           split: option.splits if_splits prod.splits)

declare write_loop.simps [simp del]

section \<open>One run for one ticker\<close>

text \<open>
  \<^verbatim>\<open>download_and_store_data\<close>. The provider is the function \<open>yf_download\<close> from the
  start and end instants to the frame it returns, \<open>None\<close> when the call raises. The
  current time is the argument \<open>now\<close>. The result records the directory after the
  run, the calls made to the provider and the way the run ended; it is \<open>None\<close> when
  the run does not return.
\<close>

datatype outcome = UpToDate | DownloadError | NoNewData | NothingAfterFilter | Updated

record run_result =
  final_dir :: directory
  fetch_calls :: "(int \<times> int) list"
  outcome :: outcome

definition DOWNLOAD_PERIOD_DAYS :: int where
  "DOWNLOAD_PERIOD_DAYS = 7"

definition Timedelta_minutes :: "int \<Rightarrow> int" where
  "Timedelta_minutes n = n * 60 * 1000000000"

definition Timedelta_days :: "int \<Rightarrow> int" where
  "Timedelta_days n = n * 86400 * 1000000000"

text \<open>\<^verbatim>\<open>os.makedirs(ticker_dir, exist_ok=True)\<close>: a missing directory is created empty.\<close>

definition makedirs :: "directory option \<Rightarrow> directory" where
  "makedirs fs = (case fs of None \<Rightarrow> [] | Some d \<Rightarrow> d)"

definition download_and_store_data ::
    "nat \<Rightarrow> (string \<Rightarrow> int option) \<Rightarrow> (int \<Rightarrow> int \<Rightarrow> frame option) \<Rightarrow> int
      \<Rightarrow> directory option \<Rightarrow> run_result option" where
  "download_and_store_data cap lenient yf_download now fs =
     (let d = makedirs fs;
          latest_timestamp_from_csv = get_latest_timestamp_from_dir lenient d;
          end_date_yf = now;
          start_date_yf =
            (case latest_timestamp_from_csv of
               Some latest \<Rightarrow> latest + Timedelta_minutes 1
             | None \<Rightarrow> end_date_yf - Timedelta_days DOWNLOAD_PERIOD_DAYS)
      in if latest_timestamp_from_csv \<noteq> None \<and> start_date_yf \<ge> end_date_yf
         then Some \<lparr>final_dir = d, fetch_calls = [], outcome = UpToDate\<rparr>
         else
           (case yf_download start_date_yf end_date_yf of
              None \<Rightarrow>
                Some \<lparr>final_dir = d, fetch_calls = [(start_date_yf, end_date_yf)],
                      outcome = DownloadError\<rparr>
            | Some data \<Rightarrow>
                if frame_rows data = []
                then Some \<lparr>final_dir = d, fetch_calls = [(start_date_yf, end_date_yf)],
                           outcome = NoNewData\<rparr>
                else
                  (let rows = reconcile latest_timestamp_from_csv data
                   in if rows = []
                      then Some \<lparr>final_dir = d, fetch_calls = [(start_date_yf, end_date_yf)],
                                 outcome = NothingAfterFilter\<rparr>
                      else
                        (case initial_target cap d of
                           None \<Rightarrow> None
                         | Some target_csv_file \<Rightarrow>
                             (case write_loop cap (columns data) d target_csv_file rows of
                                None \<Rightarrow> None
                              | Some d' \<Rightarrow>
                                  Some \<lparr>final_dir = d',
                                        fetch_calls = [(start_date_yf, end_date_yf)],
                                        outcome = Updated\<rparr>)))))"

section \<open>The stored history of a ticker\<close>

text \<open>
  The records of a segment are the lines after its header line; the history of a
  directory is the records of \<^verbatim>\<open>data_0.csv\<close>, \<^verbatim>\<open>data_1.csv\<close>, ... in this order.
  The history is monotonic when every index entry parses in the format of the program
  and the instants increase strictly.
\<close>

definition segment_index :: "csv_file \<Rightarrow> string list" where
  "segment_index f = map fst (tl (content f))"

definition stored_index :: "directory \<Rightarrow> string list" where
  "stored_index d =
     concat (map (\<lambda>i. case map_of d (seg_name i) of None \<Rightarrow> [] | Some f \<Rightarrow> segment_index f)
                 [0..<length d])"

definition monotonic :: "directory \<Rightarrow> bool" where
  "monotonic d =
     (case to_datetime_format known_csv_datetime_format (stored_index d) of
        None \<Rightarrow> False
      | Some vs \<Rightarrow> sorted_wrt (<) vs)"

section \<open>Configuration and the main program\<close>

text \<open>
  \<^verbatim>\<open>str.strip()\<close> removes the white space of both ends; \<^verbatim>\<open>line.split(':', 1)\<close> cuts
  at the first colon and yields one part when there is none, so that the unpacking into
  two names raises \<^verbatim>\<open>ValueError\<close> (here \<open>None\<close>); \<^verbatim>\<open>split(',')\<close> cuts at every comma.
\<close>

text \<open>
  A line of the configuration file is the list of its code points; a \<open>char\<close> stands for a
  code point below 256. The white space of \<^verbatim>\<open>str.strip()\<close> and \<^verbatim>\<open>str.isspace()\<close> in
  this range: the code points 9 to 13, 28 to 32, 133 (next line) and 160 (no-break
  space).
\<close>

definition is_space :: "char \<Rightarrow> bool" where
  "is_space c =
     (let n = (of_char c :: nat)
      in (9 \<le> n \<and> n \<le> 13) \<or> (28 \<le> n \<and> n \<le> 32) \<or> n = 133 \<or> n = 160)"

definition strip :: "string \<Rightarrow> string" where
  "strip s = rev (dropWhile is_space (rev (dropWhile is_space s)))"

definition startswith :: "string \<Rightarrow> string \<Rightarrow> bool" where
  "startswith s p = (take (length p) s = p)"

fun split_once :: "char \<Rightarrow> string \<Rightarrow> (string \<times> string) option" where
  "split_once c [] = None"
| "split_once c (x # xs) =
     (if x = c then Some ([], xs)
      else map_option (\<lambda>(a, b). (x # a, b)) (split_once c xs))"

fun split_all :: "char \<Rightarrow> string \<Rightarrow> string list" where
  "split_all c [] = [[]]"
| "split_all c (x # xs) =
     (if x = c then [] # split_all c xs
      else (case split_all c xs of [] \<Rightarrow> [[x]] | h # t \<Rightarrow> (x # h) # t))"

text \<open>
  A Python \<^verbatim>\<open>dict\<close> keeps its keys in the order of their first insertion; an
  assignment to a key that is present replaces the value in place.
\<close>

type_synonym config = "(string \<times> string list) list"

definition dict_set :: "string \<Rightarrow> string list \<Rightarrow> config \<Rightarrow> config" where
  "dict_set k v m =
     (if k \<in> set (map fst m) then map (\<lambda>(k', v'). if k' = k then (k', v) else (k', v')) m
      else m @ [(k, v)])"

text \<open>The body of the \<^verbatim>\<open>try\<close> block of \<^verbatim>\<open>parse_config\<close> (lines 31-33).\<close>

definition parse_line :: "string \<Rightarrow> (string \<times> string list) option" where
  "parse_line line =
     (case split_once CHR '':'' line of
        None \<Rightarrow> None
      | Some (stock_type, tickers_str) \<Rightarrow>
          Some (strip stock_type, map strip (split_all CHR '','' tickers_str)))"

fun parse_lines :: "config \<Rightarrow> string list \<Rightarrow> config" where
  "parse_lines config [] = config"
| "parse_lines config (l # ls) =
     (let line = strip l
      in if line = [] \<or> startswith line ''#'' then parse_lines config ls
         else
           (case parse_line line of
              None \<Rightarrow> parse_lines config ls
            | Some (k, v) \<Rightarrow> parse_lines (dict_set k v config) ls))"

text \<open>
  The configuration file as the program finds it: missing, present but failing to open
  or to read (an exception that nothing catches), or its lines.
\<close>

datatype config_file = Missing | Unopenable | Text "string list"

datatype uncaught = OSError

definition parse_config :: "config_file \<Rightarrow> uncaught + config option" where
  "parse_config cf =
     (case cf of
        Missing \<Rightarrow> Inr None
      | Unopenable \<Rightarrow> Inl OSError
      | Text ls \<Rightarrow> Inr (Some (parse_lines [] ls)))"

text \<open>
  The main program, reduced to its exit status. \<open>escapes g t\<close> tells whether the call
  \<^verbatim>\<open>download_and_store_data(g, t)\<close> lets an exception escape (the download itself is
  guarded by \<^verbatim>\<open>try\<close>, the writes to the file system are not). An uncaught exception
  ends the interpreter with status 1; \<^verbatim>\<open>exit()\<close> without an argument and the normal
  end of the script end it with status 0.
\<close>

fun process_tickers :: "(string \<Rightarrow> string \<Rightarrow> bool) \<Rightarrow> string \<Rightarrow> string list \<Rightarrow> bool" where
  "process_tickers escapes g [] = True"
| "process_tickers escapes g (t # ts) =
     (if escapes g t then False else process_tickers escapes g ts)"

fun process_groups :: "(string \<Rightarrow> string \<Rightarrow> bool) \<Rightarrow> config \<Rightarrow> bool" where
  "process_groups escapes [] = True"
| "process_groups escapes ((g, ts) # rest) =
     (if process_tickers escapes g ts then process_groups escapes rest else False)"

definition main_exit_status :: "config_file \<Rightarrow> (string \<Rightarrow> string \<Rightarrow> bool) \<Rightarrow> nat" where
  "main_exit_status cf escapes =
     (case parse_config cf of
        Inl e \<Rightarrow> 1
      | Inr None \<Rightarrow> 0
      | Inr (Some config_data) \<Rightarrow>
          if config_data = [] then 0
          else if process_groups escapes config_data then 0 else 1)"

section \<open>Auxiliary notions for the statements\<close>

text \<open>
  What one line of the configuration file contributes: nothing for a blank line, a
  comment or a line without a colon, otherwise its group label and ticker list.
\<close>

definition line_entry :: "string \<Rightarrow> (string \<times> string list) option" where
  "line_entry l =
     (let line = strip l in if line = [] \<or> startswith line ''#'' then None else parse_line line)"

text \<open>Concrete inputs for the examples.\<close>

definition no_break_space :: char where
  "no_break_space = char_of (160 :: nat)"

definition never_escapes :: "string \<Rightarrow> string \<Rightarrow> bool" where
  "never_escapes g t = False"

definition lenient_none :: "string \<Rightarrow> int option" where
  "lenient_none s = None"

definition provider_down :: "int \<Rightarrow> int \<Rightarrow> frame option" where
  "provider_down start_date end_date = None"

definition header_line :: line where
  "header_line = (''Datetime'', ''Close,High,Low,Open,Volume'')"

definition minute_bar :: "nat \<Rightarrow> Timestamp" where
  "minute_bar k =
     \<lparr>year = 2024, month = 3, day = 5, hour = 14, minute = k, second = 0, nanos = 0,
      utcoffset = Some 0\<rparr>"

definition bar_row :: "nat \<Rightarrow> row" where
  "bar_row k = (minute_bar k, ''1.0,1.0,1.0,1.0,100'')"

definition segment_of :: "nat list \<Rightarrow> csv_file" where
  "segment_of ks = \<lparr>content = header_line # map (\<lambda>k. row_line (bar_row k)) ks, unreadable = False\<rparr>"

definition eleven_segments :: directory where
  "eleven_segments = layout (map (\<lambda>k. segment_of [k]) [0..<11])"

definition naive_row :: "nat \<Rightarrow> row" where
  "naive_row k = ((minute_bar k)\<lparr>utcoffset := None\<rparr>, ''1.0,1.0,1.0,1.0,100'')"

definition example_frame :: frame where
  "example_frame =
     \<lparr>tz_aware = False, columns = header_line,
      frame_rows = [naive_row 12, naive_row 9, naive_row 11]\<rparr>"

text \<open>
  The segment that the resolver reads, and the timestamps it keeps from a segment:
  the index entries after the header line, parsed and with the invalid ones dropped.
\<close>

definition last_segment :: "directory \<Rightarrow> csv_file option" where
  "last_segment d = (case last_csv d of None \<Rightarrow> None | Some name \<Rightarrow> map_of d name)"

definition valid_timestamps :: "(string \<Rightarrow> int option) \<Rightarrow> csv_file \<Rightarrow> int list" where
  "valid_timestamps lenient f = dropna (parse_index lenient (segment_index f))"

definition half_second_bar :: Timestamp where
  "half_second_bar =
     \<lparr>year = 2024, month = 3, day = 5, hour = 14, minute = 30, second = 0, nanos = 500000000,
      utcoffset = Some 0\<rparr>"

text \<open>
  The records of a segment with their numeric fields, the records of a directory in
  the order of the ordinals, and the effect of an append on the list of the segments of
  a gapless directory: the segment \<open>k\<close> grows, or a new last segment appears.
\<close>

definition segment_records :: "csv_file \<Rightarrow> line list" where
  "segment_records f = tl (content f)"

definition stored_records :: "directory \<Rightarrow> line list" where
  "stored_records d =
     concat (map (\<lambda>i. case map_of d (seg_name i) of None \<Rightarrow> [] | Some f \<Rightarrow> segment_records f)
                 [0..<length d])"

definition append_lines :: "csv_file list \<Rightarrow> nat \<Rightarrow> line list \<Rightarrow> csv_file list" where
  "append_lines fs k new =
     (if k < length fs then fs[k := (fs ! k)\<lparr>content := content (fs ! k) @ new\<rparr>]
      else fs @ [\<lparr>content = new, unreadable = False\<rparr>])"

text \<open>
  The lines of one append to the segment \<open>k\<close> of a gapless directory: the header line
  unless the segment exists with content, then the rows.
\<close>

definition lines_for :: "csv_file list \<Rightarrow> nat \<Rightarrow> line \<Rightarrow> row list \<Rightarrow> line list" where
  "lines_for fs k cols written =
     (if k < length fs \<and> content (fs ! k) \<noteq> [] then [] else [cols]) @ map row_line written"

definition empty_file :: csv_file where
  "empty_file = \<lparr>content = [], unreadable = False\<rparr>"

definition three_bars :: "row list" where
  "three_bars = [bar_row 1, bar_row 2, bar_row 3]"

text \<open>
  The conditions under which one run is followed: the resolver finds the end of the
  stored history when the directory is empty or its listing ends with the segment of
  the greatest ordinal, and this segment can be read and has a record; a fetched batch
  is clean when, made UTC, its timestamps are pairwise distinct, are whole seconds and
  have the fields of a calendar date in a year of at most four digits.
\<close>

definition resolvable :: "csv_file list \<Rightarrow> bool" where
  "resolvable fs =
     (fs = [] \<or>
      (last_csv (layout fs) = Some (seg_name (length fs - 1))
       \<and> \<not> unreadable (last fs) \<and> segment_index (last fs) \<noteq> []))"

definition clean_batch :: "frame \<Rightarrow> bool" where
  "clean_batch data =
     (distinct (map (\<lambda>r. value_ns (fst r)) (normalize_index data))
      \<and> list_all (\<lambda>r. valid_fields (fst r) \<and> year (fst r) < 10000 \<and> nanos (fst r) = 0)
           (normalize_index data))"

definition clean_provider :: "(int \<Rightarrow> int \<Rightarrow> frame option) \<Rightarrow> bool" where
  "clean_provider yf_download =
     (\<forall>start_date end_date data. yf_download start_date end_date = Some data \<longrightarrow> clean_batch data)"

text \<open>More concrete inputs: a provider that returns one bar twice, and one that returns
  the bars of the minutes 31 and 32.\<close>

definition repeating_provider :: "int \<Rightarrow> int \<Rightarrow> frame option" where
  "repeating_provider start_date end_date =
     Some \<lparr>tz_aware = False, columns = header_line, frame_rows = [naive_row 1, naive_row 1]\<rparr>"

definition two_bar_provider :: "int \<Rightarrow> int \<Rightarrow> frame option" where
  "two_bar_provider start_date end_date =
     Some \<lparr>tz_aware = False, columns = header_line, frame_rows = [naive_row 32, naive_row 31]\<rparr>"

definition listing_last :: "string list \<Rightarrow> string option" where
  "listing_last names =
     (let csv_files = sorted_py (filter matches_csv names)
      in if csv_files = [] then None else Some (last csv_files))"



text \<open>
  The calendar arithmetic of \<open>civil_from_days\<close> in its parts: the year within an era of
  146097 days that the day \<open>doe\<close> of the era falls in, and the first and the last day
  of the year \<open>y\<close> of an era (the years of an era begin on the first of March).
\<close>

definition year_of_era :: "int \<Rightarrow> int" where
  "year_of_era doe = (doe - doe div 1460 + doe div 36524 - doe div 146096) div 365"

definition year_start :: "int \<Rightarrow> int" where
  "year_start y = 365 * y + y div 4 - y div 100"

definition year_end :: "int \<Rightarrow> int" where
  "year_end y = (if y = 399 then 146096 else year_start (y + 1) - 1)"

text \<open>A zone-aware frame for the examples: two bars stamped at the offset +05:30.\<close>

definition offset_bar :: "nat \<Rightarrow> Timestamp" where
  "offset_bar k =
     \<lparr>year = 2024, month = 3, day = 5, hour = 14, minute = k, second = 0, nanos = 0,
      utcoffset = Some 19800\<rparr>"

definition utc_bar :: "nat \<Rightarrow> Timestamp" where
  "utc_bar k =
     \<lparr>year = 2024, month = 3, day = 5, hour = 9, minute = k, second = 0, nanos = 0,
      utcoffset = Some 0\<rparr>"

definition aware_frame :: frame where
  "aware_frame =
     \<lparr>tz_aware = True, columns = header_line,
      frame_rows = [(offset_bar 32, ''1.0''), (offset_bar 30, ''1.0'')]\<rparr>"

section \<open>Which segment is the last one\<close>

text \<open>
  Claim C1 states that the resolver and the writer work on the segment with the
  greatest ordinal, also in directories with ten or more segments. The source takes
  the last element of \<^verbatim>\<open>sorted(glob.glob(...))\<close>, which orders the names as strings:
  \<^verbatim>\<open>data_10.csv\<close> comes before \<^verbatim>\<open>data_2.csv\<close>. In a directory with the eleven
  segments 0 to 10, where segment \<open>k\<close> holds the bar of minute \<open>k\<close>, the resolver
  returns the timestamp of segment 9 although segment 10 holds a later one, and the
  writer appends to segment 9.
\<close>

theorem eleven_segments_use_segment_nine:
  "last_csv eleven_segments = Some ''data_9.csv''
   \<and> seg_name 10 = ''data_10.csv''
   \<and> exists eleven_segments (seg_name 10)
   \<and> get_latest_timestamp_from_dir lenient_none eleven_segments = Some (value_ns (minute_bar 9))
   \<and> value_ns (minute_bar 9) < value_ns (minute_bar 10)
   \<and> initial_target MAX_FILE_SIZE_BYTES eleven_segments = Some ''data_9.csv''"
proof -
  have listing: "last_csv eleven_segments = Some ''data_9.csv''"
    by code_simp
  have name: "seg_name 10 = ''data_10.csv''"
    by code_simp
  have present: "exists eleven_segments (seg_name 10)"
    by code_simp
  have resolved: "get_latest_timestamp_from_dir lenient_none eleven_segments
                    = Some (value_ns (minute_bar 9))"
    by code_simp
  have earlier: "value_ns (minute_bar 9) < value_ns (minute_bar 10)"
    by code_simp
  have size: "path_getsize eleven_segments ''data_9.csv'' = 81"
    by code_simp
  have target: "initial_target MAX_FILE_SIZE_BYTES eleven_segments = Some ''data_9.csv''"
    by (simp add: initial_target_def listing size MAX_FILE_SIZE_BYTES_def MAX_FILE_SIZE_MB_def)
  from listing name present resolved earlier target show ?thesis
    by (intro conjI)
qed

section \<open>The result of the Timestamp Resolver\<close>






lemma last_sort_Max:
  fixes xs :: "int list"
  assumes "xs \<noteq> []"
  shows "last (sort xs) = Max (set xs)"
proof -
  have ne: "sort xs \<noteq> []"
    using assms by (metis set_empty set_sort)
  have "Max (set (sort xs)) = last (sort xs)"
  proof (rule Max_eqI)
    show "finite (set (sort xs))" by simp
    show "y \<le> last (sort xs)" if mem: "y \<in> set (sort xs)" for y
    proof -
      obtain i where i: "i < length (sort xs)" and y: "y = sort xs ! i"
        using mem unfolding in_set_conv_nth by blast
      have "sort xs ! i \<le> sort xs ! (length (sort xs) - 1)"
        using i by (intro sorted_nth_mono) auto
      then show ?thesis
        using ne by (simp add: y last_conv_nth)
    qed
    show "last (sort xs) \<in> set (sort xs)"
      using ne by (rule last_in_set)
  qed
  then show ?thesis by simp
qed

lemma resolver_by_cases:
  "get_latest_timestamp_from_dir lenient d =
     (case last_segment d of
        None \<Rightarrow> None
      | Some f \<Rightarrow>
          if unreadable f \<or> segment_index f = [] \<or> valid_timestamps lenient f = [] then None
          else Some (Max (set (valid_timestamps lenient f))))"
proof (cases "last_csv d")
  case None
  then show ?thesis
    by (simp add: get_latest_timestamp_from_dir_def last_segment_def)
next
  case (Some name)
  show ?thesis
  proof (cases "map_of d name")
    case None
    with Some show ?thesis
      by (simp add: get_latest_timestamp_from_dir_def last_segment_def)
  next
    case f: (Some f)
    show ?thesis
    proof (cases "unreadable f")
      case True
      with Some f show ?thesis
        by (simp add: get_latest_timestamp_from_dir_def last_segment_def read_csv_def)
    next
      case False
      show ?thesis
      proof (cases "content f")
        case Nil
        with Some f False show ?thesis
          by (simp add: get_latest_timestamp_from_dir_def last_segment_def read_csv_def
                segment_index_def)
      next
        case (Cons h rows)
        with Some f False show ?thesis
          by (simp add: get_latest_timestamp_from_dir_def last_segment_def read_csv_def
                segment_index_def valid_timestamps_def Let_def last_sort_Max)
      qed
    qed
  qed
qed

lemma those_map_Some: "those xs = Some ys \<longleftrightarrow> xs = map Some ys"
proof (induction xs arbitrary: ys)
  case Nil
  then show ?case by auto
next
  case (Cons x xs)
  show ?case
  proof (cases x)
    case None
    then show ?thesis by (cases ys) auto
  next
    case (Some v)
    then show ?thesis
      using Cons.IH by (cases ys) (auto split: option.splits)
  qed
qed







lemma instant_of_offset:
  assumes "utcoffset t = Some off"
  shows "value_ns t = value_ns (t\<lparr>utcoffset := Some 0\<rparr>) - off * 1000000000"
  using assms by (simp add: value_ns_def offset_seconds_def algebra_simps)



section \<open>Days and calendar dates\<close>

lemma years_of_an_era:
  "list_all (\<lambda>y. year_of_era (year_start y) = y \<and> year_of_era (year_end y) = y
                  \<and> year_start y \<le> year_end y \<and> year_end y - year_start y \<le> 365
                  \<and> 0 \<le> year_start y \<and> year_end y \<le> 146096) [0..399]"
  by code_simp

lemma year_facts:
  assumes "0 \<le> y" and "y \<le> 399"
  shows "year_of_era (year_start y) = y" and "year_of_era (year_end y) = y"
    and "year_start y \<le> year_end y" and "year_end y - year_start y \<le> 365"
    and "0 \<le> year_start y" and "year_end y \<le> 146096"
proof -
  have "y \<in> set [0..399]"
    using assms by simp
  then have "year_of_era (year_start y) = y \<and> year_of_era (year_end y) = y
                  \<and> year_start y \<le> year_end y \<and> year_end y - year_start y \<le> 365
                  \<and> 0 \<le> year_start y \<and> year_end y \<le> 146096"
    using years_of_an_era unfolding list_all_iff by blast
  then show "year_of_era (year_start y) = y" and "year_of_era (year_end y) = y"
    and "year_start y \<le> year_end y" and "year_end y - year_start y \<le> 365"
    and "0 \<le> year_start y" and "year_end y \<le> 146096"
    by simp_all
qed

lemma quotient_bounds:
  fixes a q :: int
  assumes "0 < q"
  shows "q * (a div q) \<le> a" and "a < q * (a div q) + q"
proof -
  have "a = q * (a div q) + a mod q"
    by simp
  moreover have "0 \<le> a mod q" and "a mod q < q"
    using assms by simp_all
  ultimately show "q * (a div q) \<le> a" and "a < q * (a div q) + q"
    by linarith+
qed

lemma era_count_mono:
  fixes a b :: int
  assumes "0 \<le> a" and "a \<le> b" and "b \<le> 146096"
  shows "a - a div 1460 + a div 36524 - a div 146096
           \<le> b - b div 1460 + b div 36524 - b div 146096"
proof (cases "b = 146096")
  case False
  with assms have small: "a div 146096 = 0" "b div 146096 = 0"
    by simp_all
  have centuries: "a div 36524 \<le> b div 36524"
    using assms(2) by (intro zdiv_mono1) simp_all
  define qa where "qa = a div 1460"
  define qb where "qb = b div 1460"
  have "1460 * qb \<le> b" and "a < 1460 * qa + 1460"
    unfolding qa_def qb_def by (simp_all add: quotient_bounds)
  then have "qb - qa \<le> b - a"
    using assms(2) by linarith
  with centuries show ?thesis
    unfolding small qa_def [symmetric] qb_def [symmetric] by linarith
next
  case True
  show ?thesis
  proof (cases "a = b")
    case True
    then show ?thesis by simp
  next
    case False
    with assms True have a: "a \<le> 146095"
      by simp
    with assms have small: "a div 146096 = 0"
      by simp
    define qa where "qa = a div 1460"
    define ca where "ca = a div 36524"
    have "a < 1460 * qa + 1460" and "36524 * ca \<le> a"
      unfolding qa_def ca_def by (simp_all add: quotient_bounds)
    with a have "a - qa + ca \<le> 145999"
      by linarith
    then show ?thesis
      unfolding True small qa_def [symmetric] ca_def [symmetric] by simp
  qed
qed

lemma year_of_era_mono:
  assumes "0 \<le> a" and "a \<le> b" and "b \<le> 146096"
  shows "year_of_era a \<le> year_of_era b"
  unfolding year_of_era_def using era_count_mono [OF assms] by (intro zdiv_mono1) simp_all

lemma year_of_era_range:
  assumes "0 \<le> doe" and "doe \<le> 146096"
  shows "0 \<le> year_of_era doe" and "year_of_era doe \<le> 399"
proof -
  have "year_of_era 0 = 0" and "year_of_era 146096 = 399"
    by (simp_all add: year_of_era_def)
  moreover have "year_of_era 0 \<le> year_of_era doe" and "year_of_era doe \<le> year_of_era 146096"
    using assms by (simp_all add: year_of_era_mono)
  ultimately show "0 \<le> year_of_era doe" and "year_of_era doe \<le> 399"
    by simp_all
qed

lemma day_within_its_year:
  assumes "0 \<le> doe" and "doe \<le> 146096"
  shows "year_start (year_of_era doe) \<le> doe" and "doe \<le> year_end (year_of_era doe)"
proof -
  define y where "y = year_of_era doe"
  have y: "0 \<le> y" "y \<le> 399"
    unfolding y_def using assms by (rule year_of_era_range)+
  show "year_start (year_of_era doe) \<le> doe"
  proof (rule ccontr)
    assume "\<not> year_start (year_of_era doe) \<le> doe"
    then have before: "doe < year_start y"
      by (simp add: y_def)
    have "y \<noteq> 0"
      using before assms(1) by (auto simp: year_start_def)
    with y have prev: "0 \<le> y - 1" "y - 1 \<le> 399" "y - 1 \<noteq> 399"
      by simp_all
    have "year_end (y - 1) = year_start y - 1"
      using prev(3) by (simp add: year_end_def)
    with before have "doe \<le> year_end (y - 1)"
      by simp
    then have "year_of_era doe \<le> year_of_era (year_end (y - 1))"
      using assms(1) year_facts(6) [OF prev(1,2)] by (intro year_of_era_mono) simp_all
    then show False
      using year_facts(2) [OF prev(1,2)] by (simp add: y_def)
  qed
  show "doe \<le> year_end (year_of_era doe)"
  proof (rule ccontr)
    assume "\<not> doe \<le> year_end (year_of_era doe)"
    then have after: "year_end y < doe"
      by (simp add: y_def)
    have "y \<noteq> 399"
      using after assms(2) by (auto simp: year_end_def)
    with y have nxt: "0 \<le> y + 1" "y + 1 \<le> 399"
      by simp_all
    have "year_end y = year_start (y + 1) - 1"
      using \<open>y \<noteq> 399\<close> by (simp add: year_end_def)
    with after have "year_start (y + 1) \<le> doe"
      by simp
    then have "year_of_era (year_start (y + 1)) \<le> year_of_era doe"
      using assms(2) year_facts(5) [OF nxt] by (intro year_of_era_mono) simp_all
    then show False
      using year_facts(1) [OF nxt] by (simp add: y_def)
  qed
qed

lemma days_from_civil_inverse:
  obtains y m d where "civil_from_days z = (y, m, d)" and "days_from_civil y m d = z"
    and "1 \<le> m" and "m \<le> 12" and "1 \<le> d" and "0 \<le> z + 719468 \<longrightarrow> 0 \<le> y"
proof -
  define era where "era = (z + 719468) div 146097"
  define doe where "doe = (z + 719468) mod 146097"
  define yoe where "yoe = year_of_era doe"
  define doy where "doy = doe - year_start yoe"
  define mp where "mp = (5 * doy + 2) div 153"
  define e where "e = (153 * mp + 2) div 5"
  define d where "d = doy - e + 1"
  define m where "m = (if mp < 10 then mp + 3 else mp - 9)"
  define y where "y = (if m \<le> 2 then yoe + era * 400 + 1 else yoe + era * 400)"
  have doe: "0 \<le> doe" "doe \<le> 146096"
    unfolding doe_def by simp_all
  have yoe: "0 \<le> yoe" "yoe \<le> 399"
    unfolding yoe_def using doe by (rule year_of_era_range)+
  have "year_start yoe \<le> doe" and "doe \<le> year_end yoe"
    unfolding yoe_def using doe by (rule day_within_its_year)+
  with year_facts(4) [OF yoe] have doy: "0 \<le> doy" "doy \<le> 365"
    unfolding doy_def by linarith+
  have "153 * mp \<le> 5 * doy + 2" and "5 * doy + 2 < 153 * mp + 153"
    unfolding mp_def by (simp_all add: quotient_bounds)
  with doy have mp: "0 \<le> mp" "mp \<le> 11" and mp_le: "153 * mp \<le> 5 * doy + 2"
    by linarith+
  have "5 * e \<le> 153 * mp + 2"
    unfolding e_def by (simp add: quotient_bounds)
  with mp_le have "e \<le> doy"
    by linarith
  then have d: "1 \<le> d"
    by (simp add: d_def)
  have m: "1 \<le> m" "m \<le> 12"
    using mp by (simp_all add: m_def)
  have civil: "civil_from_days z = (y, m, d)"
    unfolding civil_from_days_def Let_def y_def m_def d_def e_def mp_def doy_def yoe_def
      doe_def era_def year_of_era_def year_start_def
    by (rule refl)
  have back_year: "(if m \<le> 2 then y - 1 else y) = yoe + era * 400"
    by (simp add: y_def)
  have back_era: "(yoe + era * 400) div 400 = era" and back_yoe: "(yoe + era * 400) mod 400 = yoe"
    using yoe by simp_all
  have back_mp: "(if m > 2 then m - 3 else m + 9) = mp"
    using mp by (simp add: m_def)
  have back_doy: "(153 * mp + 2) div 5 + d - 1 = doy"
    by (simp add: d_def e_def)
  have back_doe: "yoe * 365 + yoe div 4 - yoe div 100 + doy = doe"
    by (simp add: doy_def year_start_def)
  have back_z: "era * 146097 + doe - 719468 = z"
    unfolding era_def doe_def by simp
  have inverse: "days_from_civil y m d = z"
    unfolding days_from_civil_def Let_def back_year back_era back_yoe back_mp back_doy back_doe
    by (rule back_z)
  have nonneg: "0 \<le> z + 719468 \<longrightarrow> 0 \<le> y"
  proof
    assume "0 \<le> z + 719468"
    then have "0 \<le> era"
      unfolding era_def by (simp add: pos_imp_zdiv_nonneg_iff)
    with yoe show "0 \<le> y"
      by (simp add: y_def)
  qed
  from civil inverse m d nonneg show thesis
    by (rule that)
qed

lemma value_of_timestamp_of_value:
  assumes "- 9223372036854775808 \<le> v"
  shows "value_ns (timestamp_of_value v) = v"
proof -
  define secs where "secs = v div 1000000000"
  define sod where "sod = secs mod 86400"
  define days where "days = secs div 86400"
  obtain y m d where civil: "civil_from_days days = (y, m, d)"
    and inverse: "days_from_civil y m d = days"
    and pos: "1 \<le> m" "1 \<le> d" and year: "0 \<le> days + 719468 \<longrightarrow> 0 \<le> y"
    by (rule days_from_civil_inverse [of days]) blast
  have "(- 9223372036854775808) div 1000000000 \<le> secs"
    unfolding secs_def using assms by (intro zdiv_mono1) simp_all
  then have "- 9223372037 \<le> secs"
    by simp
  then have "(- 9223372037) div 86400 \<le> days"
    unfolding days_def by (intro zdiv_mono1) simp_all
  then have "0 \<le> days + 719468"
    by simp
  with year have y: "0 \<le> y"
    by simp
  have sod: "0 \<le> sod" "sod < 86400"
    unfolding sod_def by simp_all
  have hours: "0 \<le> sod div 3600" and minutes: "0 \<le> sod mod 3600 div 60"
    and seconds: "0 \<le> sod mod 60"
    using sod by (simp_all add: pos_imp_zdiv_nonneg_iff)
  have time: "sod div 3600 * 3600 + sod mod 3600 div 60 * 60 + sod mod 60 = sod"
  proof -
    have "sod mod 3600 div 60 * 60 + sod mod 3600 mod 60 = sod mod 3600"
      by simp
    moreover have "sod mod 3600 mod 60 = sod mod 60"
      by (simp add: mod_mod_cancel)
    moreover have "sod div 3600 * 3600 + sod mod 3600 = sod"
      by simp
    ultimately show ?thesis
      by linarith
  qed
  have fields: "timestamp_of_value v =
     \<lparr>year = nat y, month = nat m, day = nat d,
      hour = nat (sod div 3600), minute = nat (sod mod 3600 div 60), second = nat (sod mod 60),
      nanos = nat (v mod 1000000000), utcoffset = Some 0\<rparr>"
    by (simp add: timestamp_of_value_def Let_def secs_def [symmetric] sod_def [symmetric]
          days_def [symmetric] civil)
  have "value_ns (timestamp_of_value v)
          = (days * 86400 + (sod div 3600 * 3600 + sod mod 3600 div 60 * 60 + sod mod 60))
              * 1000000000 + v mod 1000000000"
    unfolding fields using y pos hours minutes seconds
    by (simp add: value_ns_def offset_seconds_def inverse)
  also have "\<dots> = (days * 86400 + sod) * 1000000000 + v mod 1000000000"
    by (simp only: time)
  also have "days * 86400 + sod = secs"
    unfolding days_def sod_def by simp
  also have "secs * 1000000000 + v mod 1000000000 = v"
    unfolding secs_def by simp
  finally show ?thesis .
qed

lemma tz_convert_keeps_instant:
  assumes "- 9223372036854775808 \<le> value_ns t"
  shows "value_ns (tz_convert_utc t) = value_ns t"
  unfolding tz_convert_utc_def using assms by (rule value_of_timestamp_of_value)

section \<open>The Reconciler\<close>

lemma utcoffset_normalize_index:
  "r \<in> set (normalize_index data) \<Longrightarrow> utcoffset (fst r) = Some 0"
  by (auto simp: normalize_index_def tz_localize_utc_def tz_convert_utc_def
        timestamp_of_value_def Let_def split: if_splits prod.splits)

lemma set_reconcile: "set (reconcile latest data) \<subseteq> set (normalize_index data)"
  by (auto simp: reconcile_def sort_index_def Let_def split: option.splits)

lemma sorted_reconcile: "sorted (map (\<lambda>r. value_ns (fst r)) (reconcile latest data))"
  by (auto simp: reconcile_def sort_index_def Let_def sorted_filter split: option.splits)

text \<open>
  Claim C3. The Reconciler makes the timestamp of every fetched row UTC and keeps the
  row otherwise: in a naive index every timestamp keeps its wall clock and is declared
  UTC; in a zone-aware index every timestamp (within the range of a 64-bit count of
  nanoseconds) keeps its instant and gets the offset 0, where the instant of a timestamp
  with an offset is its wall clock read as UTC minus the offset. The rows are then
  ordered by ascending timestamp. When a Resumption Point exists, the rows that remain
  are exactly the fetched rows whose timestamp is strictly greater than it, each as
  often as it was fetched, in ascending order (possibly none); without a Resumption
  Point all rows remain.
\<close>

theorem reconcile_normalizes_sorts_filters:
  "length (normalize_index data) = length (frame_rows data)
   \<and> (\<forall>i < length (frame_rows data).
         snd (normalize_index data ! i) = snd (frame_rows data ! i)
         \<and> utcoffset (fst (normalize_index data ! i)) = Some 0
         \<and> (\<not> tz_aware data \<longrightarrow>
               fst (normalize_index data ! i) = (fst (frame_rows data ! i))\<lparr>utcoffset := Some 0\<rparr>)
         \<and> (tz_aware data \<and> - 9223372036854775808 \<le> value_ns (fst (frame_rows data ! i)) \<longrightarrow>
               value_ns (fst (normalize_index data ! i)) = value_ns (fst (frame_rows data ! i))))
   \<and> (\<forall>t off. utcoffset t = Some off \<longrightarrow>
         value_ns t = value_ns (t\<lparr>utcoffset := Some 0\<rparr>) - off * 1000000000)
   \<and> sorted (map (\<lambda>r. value_ns (fst r)) (reconcile latest data))
   \<and> mset (reconcile latest data) =
       (case latest of
          None \<Rightarrow> mset (normalize_index data)
        | Some l \<Rightarrow> filter_mset (\<lambda>r. l < value_ns (fst r)) (mset (normalize_index data)))"
proof -
  have len: "length (normalize_index data) = length (frame_rows data)"
    by (simp add: normalize_index_def)
  have rows: "\<forall>i < length (frame_rows data).
         snd (normalize_index data ! i) = snd (frame_rows data ! i)
         \<and> utcoffset (fst (normalize_index data ! i)) = Some 0
         \<and> (\<not> tz_aware data \<longrightarrow>
               fst (normalize_index data ! i) = (fst (frame_rows data ! i))\<lparr>utcoffset := Some 0\<rparr>)
         \<and> (tz_aware data \<and> - 9223372036854775808 \<le> value_ns (fst (frame_rows data ! i)) \<longrightarrow>
               value_ns (fst (normalize_index data ! i)) = value_ns (fst (frame_rows data ! i)))"
  proof (intro allI impI)
    fix i
    assume i: "i < length (frame_rows data)"
    then have "normalize_index data ! i \<in> set (normalize_index data)"
      by (simp add: len)
    then have utc: "utcoffset (fst (normalize_index data ! i)) = Some 0"
      by (rule utcoffset_normalize_index)
    have payload: "snd (normalize_index data ! i) = snd (frame_rows data ! i)"
      using i by (simp add: normalize_index_def)
    have naive: "\<not> tz_aware data \<longrightarrow>
               fst (normalize_index data ! i) = (fst (frame_rows data ! i))\<lparr>utcoffset := Some 0\<rparr>"
      using i by (simp add: normalize_index_def tz_localize_utc_def)
    have aware: "tz_aware data \<and> - 9223372036854775808 \<le> value_ns (fst (frame_rows data ! i)) \<longrightarrow>
               value_ns (fst (normalize_index data ! i)) = value_ns (fst (frame_rows data ! i))"
      using i by (simp add: normalize_index_def tz_convert_keeps_instant)
    from payload utc naive aware
    show "snd (normalize_index data ! i) = snd (frame_rows data ! i)
         \<and> utcoffset (fst (normalize_index data ! i)) = Some 0
         \<and> (\<not> tz_aware data \<longrightarrow>
               fst (normalize_index data ! i) = (fst (frame_rows data ! i))\<lparr>utcoffset := Some 0\<rparr>)
         \<and> (tz_aware data \<and> - 9223372036854775808 \<le> value_ns (fst (frame_rows data ! i)) \<longrightarrow>
               value_ns (fst (normalize_index data ! i)) = value_ns (fst (frame_rows data ! i)))"
      by (intro conjI)
  qed
  have instant: "\<forall>t off. utcoffset t = Some off \<longrightarrow>
         value_ns t = value_ns (t\<lparr>utcoffset := Some 0\<rparr>) - off * 1000000000"
    using instant_of_offset by blast
  have ordered: "sorted (map (\<lambda>r. value_ns (fst r)) (reconcile latest data))"
    by (rule sorted_reconcile)
  have kept: "mset (reconcile latest data) =
       (case latest of
          None \<Rightarrow> mset (normalize_index data)
        | Some l \<Rightarrow> filter_mset (\<lambda>r. l < value_ns (fst r)) (mset (normalize_index data)))"
    by (simp add: reconcile_def sort_index_def Let_def split: option.splits)
  from len rows instant ordered kept show ?thesis
    by (intro conjI)
qed

theorem reconcile_normalizes_sorts_filters_witness:
  "normalize_index aware_frame = [(utc_bar 2, ''1.0''), (utc_bar 0, ''1.0'')]
   \<and> value_ns (utc_bar 2) = value_ns (offset_bar 32)
   \<and> value_ns (offset_bar 32) = value_ns ((offset_bar 32)\<lparr>utcoffset := Some 0\<rparr>) - 19800 * 1000000000
   \<and> reconcile (Some (value_ns (utc_bar 0))) aware_frame = [(utc_bar 2, ''1.0'')]
   \<and> reconcile (Some (value_ns (minute_bar 9))) example_frame = [bar_row 11, bar_row 12]"
proof -
  have w32: "value_ns (offset_bar 32) = 1709629320000000000"
    by (simp add: value_ns_def offset_seconds_def offset_bar_def days_from_civil_def)
  have w30: "value_ns (offset_bar 30) = 1709629200000000000"
    by (simp add: value_ns_def offset_seconds_def offset_bar_def days_from_civil_def)
  have day: "civil_from_days 19787 = (2024, 3, 5)"
    unfolding civil_from_days_def Let_def by simp
  have c32: "timestamp_of_value 1709629320000000000 = utc_bar 2"
  proof -
    have secs: "(1709629320000000000::int) div 1000000000 = 1709629320" by simp
    have ns: "(1709629320000000000::int) mod 1000000000 = 0" by simp
    have days: "(1709629320::int) div 86400 = 19787" by simp
    have sod: "(1709629320::int) mod 86400 = 32520" by simp
    show ?thesis
      unfolding timestamp_of_value_def Let_def secs ns days sod day
      by (simp add: utc_bar_def)
  qed
  have c30: "timestamp_of_value 1709629200000000000 = utc_bar 0"
  proof -
    have secs: "(1709629200000000000::int) div 1000000000 = 1709629200" by simp
    have ns: "(1709629200000000000::int) mod 1000000000 = 0" by simp
    have days: "(1709629200::int) div 86400 = 19787" by simp
    have sod: "(1709629200::int) mod 86400 = 32400" by simp
    show ?thesis
      unfolding timestamp_of_value_def Let_def secs ns days sod day
      by (simp add: utc_bar_def)
  qed
  have norm: "normalize_index aware_frame = [(utc_bar 2, ''1.0''), (utc_bar 0, ''1.0'')]"
    by (simp add: normalize_index_def aware_frame_def tz_convert_utc_def w32 w30 c32 c30)
  have rows: "frame_rows aware_frame ! 0 = (offset_bar 32, ''1.0'')"
    and aware: "tz_aware aware_frame" and len: "0 < length (frame_rows aware_frame)"
    by (simp_all add: aware_frame_def)
  have range: "- 9223372036854775808 \<le> value_ns (fst (frame_rows aware_frame ! 0))"
    unfolding rows by (simp add: w32)
  have off: "utcoffset (offset_bar 32) = Some 19800"
    by (simp add: offset_bar_def)
  have v0: "value_ns (utc_bar 0) = 1709629200000000000"
    by (simp add: value_ns_def offset_seconds_def utc_bar_def days_from_civil_def)
  have v2: "value_ns (utc_bar 2) = 1709629320000000000"
    by (simp add: value_ns_def offset_seconds_def utc_bar_def days_from_civil_def)
  have filtered: "reconcile (Some (value_ns (utc_bar 0))) aware_frame = [(utc_bar 2, ''1.0'')]"
    by (simp add: reconcile_def sort_index_def Let_def norm v0 v2)
  have naive: "reconcile (Some (value_ns (minute_bar 9))) example_frame = [bar_row 11, bar_row 12]"
    by code_simp
  note facts = reconcile_normalizes_sorts_filters [of aware_frame "Some (value_ns (utc_bar 0))"]
  note row = facts [THEN conjunct2, THEN conjunct1, rule_format, OF len]
  note kept = row [THEN conjunct2, THEN conjunct2, THEN conjunct2, rule_format, OF conjI, OF aware range]
  note instant = facts [THEN conjunct2, THEN conjunct2, THEN conjunct1, rule_format, OF off]
  have "value_ns (utc_bar 2) = value_ns (offset_bar 32)"
    using kept unfolding norm rows by simp
  with instant norm filtered naive show ?thesis
    by (intro conjI)
qed

section \<open>Writing a timestamp and reading it back\<close>

lemma below_ten: "k < 10 \<Longrightarrow> k = 0 \<or> k = 1 \<or> k = 2 \<or> k = 3 \<or> k = 4 \<or> k = 5 \<or> k = 6 \<or> k = 7 \<or> k = 8 \<or> k = (9::nat)"
  by arith

lemma digit_val_digit_char: "k < 10 \<Longrightarrow> digit_val (digit_char k) = Some k"
  using below_ten [of k] by (auto simp: digit_val_def digit_char_def)

lemma digit_char_0: "digit_char 0 = CHR ''0''"
  by (simp add: digit_char_def)

lemma str_nat_small: "n < 10 \<Longrightarrow> str_nat n = [digit_char n]"
  by (simp add: str_nat.simps)

lemma str_nat_large: "10 \<le> n \<Longrightarrow> str_nat n = str_nat (n div 10) @ [digit_char (n mod 10)]"
  by (subst str_nat.simps) simp

lemma zfill_two:
  assumes "n < 100"
  shows "zfill 2 (str_nat n) = [digit_char (n div 10), digit_char (n mod 10)]"
proof (cases "n < 10")
  case True
  then show ?thesis
    by (simp add: zfill_def str_nat_small digit_char_0)
next
  case False
  with assms have "n div 10 < 10" by simp
  with False show ?thesis
    by (simp add: zfill_def str_nat_large str_nat_small)
qed

lemma str_nat_two:
  assumes "10 \<le> n" and "n < 100"
  shows "str_nat n = [digit_char (n div 10), digit_char (n mod 10)]"
proof -
  from assms have "n div 10 < 10" by simp
  with assms show ?thesis
    by (simp add: str_nat_large str_nat_small)
qed

lemma str_nat_three:
  assumes "100 \<le> n" and "n < 1000"
  shows "str_nat n = [digit_char (n div 100), digit_char (n div 10 mod 10), digit_char (n mod 10)]"
proof -
  from assms have "10 \<le> n div 10" and "n div 10 < 100" by simp_all
  then have "str_nat (n div 10) = [digit_char (n div 10 div 10), digit_char (n div 10 mod 10)]"
    by (rule str_nat_two)
  moreover have "n div 10 div 10 = n div 100"
    by (simp add: div_mult2_eq [symmetric])
  ultimately show ?thesis
    using assms by (simp add: str_nat_large)
qed

lemma str_nat_four:
  assumes "1000 \<le> n" and "n < 10000"
  shows "str_nat n = [digit_char (n div 1000), digit_char (n div 100 mod 10),
                      digit_char (n div 10 mod 10), digit_char (n mod 10)]"
proof -
  from assms have "100 \<le> n div 10" and "n div 10 < 1000" by simp_all
  then have "str_nat (n div 10) = [digit_char (n div 10 div 100), digit_char (n div 10 div 10 mod 10),
                                   digit_char (n div 10 mod 10)]"
    by (rule str_nat_three)
  moreover have "n div 10 div 100 = n div 1000" and "n div 10 div 10 = n div 100"
    by (simp_all add: div_mult2_eq [symmetric])
  ultimately show ?thesis
    using assms by (simp add: str_nat_large)
qed

lemma zfill_four:
  assumes "n < 10000"
  shows "zfill 4 (str_nat n) = [digit_char (n div 1000), digit_char (n div 100 mod 10),
                                digit_char (n div 10 mod 10), digit_char (n mod 10)]"
proof -
  have zeros: "replicate 3 c = [c, c, c]" "replicate 2 c = [c, c]" for c :: char
    by (simp_all add: numeral_3_eq_3 numeral_2_eq_2)
  consider "n < 10" | "10 \<le> n" "n < 100" | "100 \<le> n" "n < 1000" | "1000 \<le> n"
    by linarith
  then show ?thesis
  proof cases
    case 1
    then show ?thesis
      by (simp add: zfill_def str_nat_small digit_char_0 zeros)
  next
    case 2
    then show ?thesis
      by (simp add: zfill_def str_nat_two digit_char_0 zeros)
  next
    case 3
    then show ?thesis
      by (simp add: zfill_def str_nat_three digit_char_0 zeros)
  next
    case 4
    with assms show ?thesis
      by (simp add: zfill_def str_nat_four)
  qed
qed

lemma take_two_digits:
  assumes "n < 100"
  shows "take_digits 2 (zfill 2 (str_nat n) @ r) 0 = Some (n, r)"
proof -
  have "n div 10 < 10" and "n mod 10 < 10"
    using assms by simp_all
  then have "take_digits (Suc (Suc 0)) ([digit_char (n div 10), digit_char (n mod 10)] @ r) 0
               = Some (n, r)"
    by (simp add: digit_val_digit_char)
  then show ?thesis
    unfolding zfill_two [OF assms] by (simp only: numeral_2_eq_2 One_nat_def)
qed

lemma take_four_digits:
  assumes "n < 10000"
  shows "take_digits 4 (zfill 4 (str_nat n) @ r) 0 = Some (n, r)"
proof -
  have four: "(4::nat) = Suc (Suc (Suc (Suc 0)))"
    by simp
  have small: "n div 1000 < 10" "n div 100 mod 10 < 10" "n div 10 mod 10 < 10" "n mod 10 < 10"
    using assms by simp_all
  have units: "n div 10 * 10 + n mod 10 = n"
    by simp
  have tens: "n div 100 * 10 + n div 10 mod 10 = n div 10"
    using div_mult_mod_eq [of "n div 10" 10] by (simp add: div_mult2_eq [symmetric])
  have hundreds: "n div 1000 * 10 + n div 100 mod 10 = n div 100"
    using div_mult_mod_eq [of "n div 100" 10] by (simp add: div_mult2_eq [symmetric])
  have val: "((n div 1000 * 10 + n div 100 mod 10) * 10 + n div 10 mod 10) * 10 + n mod 10 = n"
    by (simp only: hundreds tens units)
  have "take_digits (Suc (Suc (Suc (Suc 0))))
          ([digit_char (n div 1000), digit_char (n div 100 mod 10),
            digit_char (n div 10 mod 10), digit_char (n mod 10)] @ r) 0
        = Some (((n div 1000 * 10 + n div 100 mod 10) * 10 + n div 10 mod 10) * 10 + n mod 10, r)"
    by (simp add: digit_val_digit_char small)
  then have "take_digits (Suc (Suc (Suc (Suc 0))))
          ([digit_char (n div 1000), digit_char (n div 100 mod 10),
            digit_char (n div 10 mod 10), digit_char (n mod 10)] @ r) 0 = Some (n, r)"
    by (simp only: val)
  then show ?thesis
    unfolding zfill_four [OF assms] by (simp only: four)
qed

lemma parse_zone_utc: "parse_zone (format_zone (Some 0) @ r) = Some (0, r)"
proof -
  have "format_zone (Some 0) = ''+0000''"
    by code_simp
  moreover have "take_digits 2 (''00'' @ s) 0 = Some (0, s)" for s
    by (simp add: numeral_2_eq_2 digit_val_def)
  ultimately show ?thesis
    by (simp add: parse_zone_def)
qed

lemma parse_zone_utc_end: "parse_zone (format_zone (Some 0)) = Some (0, [])"
  using parse_zone_utc [of "[]"] by simp

lemma strptime_strftime:
  assumes "valid_fields t" and "year t < 10000" and "nanos t = 0" and "utcoffset t = Some 0"
  shows "strptime known_csv_datetime_format (strftime known_csv_datetime_format t) = Some t"
proof -
  have small: "month t < 100" "day t < 100" "hour t < 100" "minute t < 100" "second t < 100"
    using assms(1) by (auto simp: valid_fields_def days_in_month_def split: if_splits)
  have "parse_directives known_csv_datetime_format (strftime known_csv_datetime_format t) strptime_default
          = Some (strptime_default\<lparr>year := year t, month := month t, day := day t, hour := hour t,
                    minute := minute t, second := second t, utcoffset := Some 0\<rparr>)"
    by (simp add: known_csv_datetime_format_def strftime_def take_two_digits take_four_digits
          parse_zone_utc_end small assms(2) assms(4))
  moreover have "strptime_default\<lparr>year := year t, month := month t, day := day t, hour := hour t,
                    minute := minute t, second := second t, utcoffset := Some 0\<rparr> = t"
    using assms(3,4) by (simp add: strptime_default_def)
  ultimately show ?thesis
    using assms(1) by (simp add: strptime_def)
qed

text \<open>
  Claim C6 states the round trip for every timestamp the writer serializes. The format
  has no directive for the part below one second, so a timestamp with such a part is
  written without it and read back as an earlier instant.
\<close>

theorem half_second_is_lost:
  "valid_fields half_second_bar \<and> utcoffset half_second_bar = Some 0
   \<and> to_datetime_format known_csv_datetime_format [fst (row_line (half_second_bar, ''1.0''))]
       = Some [value_ns half_second_bar - 500000000]"
proof -
  have valid: "valid_fields half_second_bar"
    by (simp add: valid_fields_def half_second_bar_def days_in_month_def)
  have utc: "utcoffset half_second_bar = Some 0"
    by (simp add: half_second_bar_def)
  have same_text: "strftime known_csv_datetime_format half_second_bar
                     = strftime known_csv_datetime_format (minute_bar 30)"
    by (simp add: strftime_def known_csv_datetime_format_def half_second_bar_def minute_bar_def)
  have "strptime known_csv_datetime_format (strftime known_csv_datetime_format (minute_bar 30))
          = Some (minute_bar 30)"
    by (rule strptime_strftime) (simp_all add: minute_bar_def valid_fields_def days_in_month_def)
  moreover have "value_ns (minute_bar 30) = value_ns half_second_bar - 500000000"
    by (simp add: value_ns_def offset_seconds_def minute_bar_def half_second_bar_def)
  ultimately have "to_datetime_format known_csv_datetime_format
                     [fst (row_line (half_second_bar, ''1.0''))]
                   = Some [value_ns half_second_bar - 500000000]"
    by (simp add: to_datetime_format_def row_line_def same_text)
  with valid utc show ?thesis
    by simp
qed

text \<open>
  Claim C6, amended. For every UTC timestamp of whole seconds (with the fields of a
  calendar date in a year of at most four digits), the text that the writer puts into
  the index column is read back by the strict parser of the resolver as the same
  timestamp, hence as the same UTC instant.
\<close>

theorem write_then_strict_parse:
  assumes "valid_fields t" and "year t < 10000" and "nanos t = 0" and "utcoffset t = Some 0"
  shows "strptime known_csv_datetime_format (fst (row_line (t, payload))) = Some t
         \<and> to_datetime_format known_csv_datetime_format [fst (row_line (t, payload))]
             = Some [value_ns t]"
  using strptime_strftime [OF assms] by (simp add: row_line_def to_datetime_format_def)

theorem write_then_strict_parse_witness:
  "strptime known_csv_datetime_format (fst (row_line (minute_bar 30, ''1.0''))) = Some (minute_bar 30)
   \<and> to_datetime_format known_csv_datetime_format [fst (row_line (minute_bar 30, ''1.0''))]
       = Some [value_ns (minute_bar 30)]"
proof -
  have "valid_fields (minute_bar 30)"
    by (simp add: minute_bar_def valid_fields_def days_in_month_def)
  moreover have "year (minute_bar 30) < 10000"
    by (simp add: minute_bar_def)
  moreover have "nanos (minute_bar 30) = 0"
    by (simp add: minute_bar_def)
  moreover have "utcoffset (minute_bar 30) = Some 0"
    by (simp add: minute_bar_def)
  ultimately show ?thesis
    by (rule write_then_strict_parse)
qed

section \<open>Gapless directories\<close>

lemma digit_char_inj:
  assumes "a < 10" and "b < 10" and "digit_char a = digit_char b"
  shows "a = b"
proof -
  have "digit_val (digit_char a) = digit_val (digit_char b)"
    using assms(3) by simp
  then show ?thesis
    using assms(1,2) by (simp add: digit_val_digit_char)
qed

lemma str_nat_length: "length (str_nat n) = 1 \<longleftrightarrow> n < 10"
proof (cases "n < 10")
  case True
  then show ?thesis by (simp add: str_nat_small)
next
  case False
  then have "str_nat n = str_nat (n div 10) @ [digit_char (n mod 10)]"
    by (simp add: str_nat_large)
  moreover have "str_nat (n div 10) \<noteq> []"
    by (subst str_nat.simps) simp
  ultimately show ?thesis
    using False by simp
qed

lemma str_nat_inj: "str_nat n = str_nat m \<Longrightarrow> n = m"
proof (induction n arbitrary: m rule: str_nat.induct)
  case (1 n)
  show ?case
  proof (cases "n < 10")
    case True
    then have "length (str_nat m) = 1"
      using "1.prems" str_nat_length [of n] by simp
    then have m: "m < 10"
      using str_nat_length [of m] by simp
    with True "1.prems" show ?thesis
      by (simp add: str_nat_small digit_char_inj)
  next
    case False
    then have "length (str_nat m) \<noteq> 1"
      using "1.prems" str_nat_length [of n] by simp
    then have m: "\<not> m < 10"
      using str_nat_length [of m] by simp
    from False m "1.prems" have eq: "str_nat (n div 10) = str_nat (m div 10)"
      and dg: "digit_char (n mod 10) = digit_char (m mod 10)"
      by (simp_all add: str_nat_large)
    from eq have "n div 10 = m div 10"
      using "1.IH" False by simp
    moreover from dg have "n mod 10 = m mod 10"
      by (intro digit_char_inj) simp_all
    ultimately show ?thesis
      by (metis div_mult_mod_eq)
  qed
qed

lemma seg_name_inj: "seg_name i = seg_name j \<longleftrightarrow> i = j"
  by (auto simp: seg_name_def dest: str_nat_inj)

lemma names_layout: "map fst (layout fs) = map seg_name [0..<length fs]"
  by (simp add: layout_def)

lemma length_layout: "length (layout fs) = length fs"
  by (simp add: layout_def)

lemma exists_layout: "exists (layout fs) (seg_name k) \<longleftrightarrow> k < length fs"
  by (auto simp: exists_def names_layout seg_name_inj simp del: map_map)

lemma distinct_layout: "distinct (map fst (layout fs))"
  unfolding names_layout by (simp add: distinct_map inj_on_def seg_name_inj)

lemma map_of_layout:
  assumes "k < length fs"
  shows "map_of (layout fs) (seg_name k) = Some (fs ! k)"
proof -
  have "(seg_name k, fs ! k) \<in> set (layout fs)"
    using assms by (auto simp: layout_def in_set_zip intro!: exI [of _ k])
  then show ?thesis
    using distinct_layout by (rule map_of_is_SomeI [rotated])
qed

lemma map_of_layout_None:
  assumes "length fs \<le> k"
  shows "map_of (layout fs) (seg_name k) = None"
  using assms exists_layout [of fs k] by (simp add: exists_def map_of_eq_None_iff)

lemma next_from_layout:
  assumes "i \<le> length fs"
  shows "next_from (layout fs) i = Some (seg_name (length fs))"
  using assms
proof (induction "length fs - i" arbitrary: i)
  case 0
  then have "i = length fs" by simp
  then show ?case
    by (subst next_from.simps) (simp add: exists_layout)
next
  case (Suc n)
  then have "i < length fs" by simp
  moreover have "next_from (layout fs) (i + 1) = Some (seg_name (length fs))"
    using Suc by (intro Suc.hyps) simp_all
  ultimately show ?case
    by (subst next_from.simps) (simp add: exists_layout)
qed

lemma get_next_layout: "get_next_available_filename (layout fs) = Some (seg_name (length fs))"
  by (simp add: get_next_available_filename_def next_from_layout)

lemma layout_snoc: "layout (fs @ [f]) = layout fs @ [(seg_name (length fs), f)]"
  by (simp add: layout_def)

lemma layout_update:
  assumes "k < length fs"
  shows "map (\<lambda>(n, f). if n = seg_name k then (n, g f) else (n, f)) (layout fs)
           = layout (fs[k := g (fs ! k)])"
proof (rule nth_equalityI)
  show "length (map (\<lambda>(n, f). if n = seg_name k then (n, g f) else (n, f)) (layout fs))
          = length (layout (fs[k := g (fs ! k)]))"
    by (simp add: length_layout)
next
  fix i
  assume "i < length (map (\<lambda>(n, f). if n = seg_name k then (n, g f) else (n, f)) (layout fs))"
  then have i: "i < length fs"
    by (simp add: length_layout)
  then show "map (\<lambda>(n, f). if n = seg_name k then (n, g f) else (n, f)) (layout fs) ! i
               = layout (fs[k := g (fs ! k)]) ! i"
    by (simp add: layout_def seg_name_inj nth_list_update)
qed

lemma to_csv_layout:
  assumes "k \<le> length fs"
  shows "to_csv (layout fs) (seg_name k) write_header cols rows
           = layout (append_lines fs k ((if write_header then [cols] else []) @ map row_line rows))"
proof (cases "k < length fs")
  case True
  then show ?thesis
    using layout_update [OF True, of "\<lambda>f. f\<lparr>content := content f @ (if write_header then [cols] else []) @ map row_line rows\<rparr>"]
    by (simp add: to_csv_def exists_layout append_lines_def Let_def)
next
  case False
  with assms have "k = length fs" by simp
  then show ?thesis
    by (simp add: to_csv_def exists_layout append_lines_def Let_def layout_snoc)
qed

lemma stored_records_layout: "stored_records (layout fs) = concat (map segment_records fs)"
proof -
  have "map (\<lambda>i. case map_of (layout fs) (seg_name i) of None \<Rightarrow> [] | Some f \<Rightarrow> segment_records f)
            [0..<length fs] = map segment_records fs"
    by (rule nth_equalityI) (simp_all add: map_of_layout)
  then show ?thesis
    by (simp add: stored_records_def length_layout)
qed

lemma stored_index_layout: "stored_index (layout fs) = map fst (stored_records (layout fs))"
proof -
  have "map (\<lambda>i. case map_of (layout fs) (seg_name i) of None \<Rightarrow> [] | Some f \<Rightarrow> segment_index f)
            [0..<length fs] = map segment_index fs"
    by (rule nth_equalityI) (simp_all add: map_of_layout)
  moreover have "segment_index = (\<lambda>f. map fst (segment_records f))"
    by (rule ext) (simp add: segment_index_def segment_records_def)
  ultimately show ?thesis
    by (simp add: stored_index_def stored_records_layout length_layout map_concat comp_def)
qed

lemma stored_index_segments: "stored_index (layout fs) = concat (map segment_index fs)"
proof -
  have "map (\<lambda>i. case map_of (layout fs) (seg_name i) of None \<Rightarrow> [] | Some f \<Rightarrow> segment_index f)
            [0..<length fs] = map segment_index fs"
    by (rule nth_equalityI) (simp_all add: map_of_layout)
  then show ?thesis
    by (simp add: stored_index_def length_layout)
qed

lemma getsize_zero: "getsize f = 0 \<longleftrightarrow> content f = []"
  by (cases "content f") (simp_all add: getsize_def line_bytes_def)

lemma path_getsize_layout:
  "k < length fs \<Longrightarrow> path_getsize (layout fs) (seg_name k) = getsize (fs ! k)"
  by (simp add: path_getsize_def map_of_layout)

section \<open>One pass of the Segment Writer\<close>

lemma writer_step_layout:
  assumes "k \<le> length fs" and "rows \<noteq> []"
  shows "\<exists>kk written rest k1.
      writer_step cap cols (layout fs) (seg_name k) rows
        = Some (layout (append_lines fs kk (lines_for fs kk cols written)), seg_name k1, rest)
      \<and> (kk = k \<or> kk = length fs) \<and> rows = written @ rest \<and> written \<noteq> []
      \<and> (rest \<noteq> [] \<longrightarrow> k1 = length (append_lines fs kk (lines_for fs kk cols written)))"
proof -
  define cur where "cur = (if k < length fs then getsize (fs ! k) else 0)"
  define roll where "roll \<longleftrightarrow> 0 < cur \<and> cap < cur + length rows * estimated_bytes_per_row"
  define kk where "kk = (if roll then length fs else k)"
  define sz where "sz = (if roll then 0 else cur)"
  define hdr where "hdr \<longleftrightarrow> \<not> (kk < length fs \<and> content (fs ! kk) \<noteq> [])"
  have kk_le: "kk \<le> length fs"
    using assms(1) by (simp add: kk_def)
  have cur_eq: "(if exists (layout fs) (seg_name k) then path_getsize (layout fs) (seg_name k) else 0) = cur"
    by (simp add: cur_def exists_layout path_getsize_layout)
  have sel: "select_target cap (layout fs) (seg_name k) rows = Some (seg_name kk, hdr, sz)"
  proof (cases roll)
    case True
    then show ?thesis
      unfolding select_target_def cur_eq Let_def
      by (simp add: roll_def kk_def sz_def hdr_def get_next_layout)
  next
    case False
    have "hdr \<longleftrightarrow> \<not> exists (layout fs) (seg_name k) \<or> cur = 0"
      using False by (auto simp: hdr_def kk_def exists_layout cur_def getsize_zero)
    with False show ?thesis
      unfolding select_target_def cur_eq Let_def
      by (auto simp: roll_def kk_def sz_def)
  qed
  have csv: "to_csv (layout fs) (seg_name kk) hdr cols w
               = layout (append_lines fs kk (lines_for fs kk cols w))" for w
    using to_csv_layout [OF kk_le, of hdr cols w] by (simp add: lines_for_def hdr_def)
  show ?thesis
  proof (cases "1 < length rows \<and> cap < length rows * estimated_bytes_per_row \<and> sz = 0")
    case True
    define c where "c = num_rows_for_chunk cap"
    have "0 < c"
      by (simp add: c_def num_rows_for_chunk_def)
    with assms(2) have w: "take c rows \<noteq> []"
      by (cases rows) auto
    let ?fs1 = "append_lines fs kk (lines_for fs kk cols (take c rows))"
    have step: "writer_step cap cols (layout fs) (seg_name k) rows
                  = Some (layout ?fs1, seg_name (if drop c rows \<noteq> [] then length ?fs1 else kk),
                          drop c rows)"
      using True by (simp add: writer_step_def sel csv Let_def get_next_layout c_def)
    show ?thesis
      by (intro exI [of _ kk] exI [of _ "take c rows"] exI [of _ "drop c rows"]
            exI [of _ "if drop c rows \<noteq> [] then length ?fs1 else kk"])
         (use step w in \<open>simp add: kk_def\<close>)
  next
    case False
    then have step: "writer_step cap cols (layout fs) (seg_name k) rows
                  = Some (layout (append_lines fs kk (lines_for fs kk cols rows)), seg_name kk, [])"
      by (auto simp: writer_step_def sel csv Let_def)
    show ?thesis
      by (intro exI [of _ kk] exI [of _ rows] exI [of _ "[]"] exI [of _ kk])
         (use step assms(2) in \<open>simp add: kk_def\<close>)
  qed
qed

text \<open>
  Claim C4. In a gapless directory with the segments \<open>0, ..., n - 1\<close>, when the target
  of a pass of the loop has a nonzero size and this size plus 150 bytes per pending row
  exceeds the cap, the pass switches to the segment with the ordinal \<open>n\<close>, which did not
  exist, marks the header as due and sets the tracked size to 0. The write of this pass
  creates exactly this one segment: the directory afterwards holds the old segments
  unchanged and one new last segment that begins with the header line, followed by the
  rows written in this pass.
\<close>

theorem rollover_creates_next_segment:
  assumes "k < length fs" and "rows \<noteq> []"
    and "0 < getsize (fs ! k)"
    and "cap < getsize (fs ! k) + length rows * estimated_bytes_per_row"
  shows "select_target cap (layout fs) (seg_name k) rows = Some (seg_name (length fs), True, 0)
         \<and> \<not> exists (layout fs) (seg_name (length fs))
         \<and> (\<exists>written rest t1.
               writer_step cap cols (layout fs) (seg_name k) rows
                 = Some (layout (fs @ [\<lparr>content = cols # map row_line written, unreadable = False\<rparr>]),
                         t1, rest)
               \<and> written \<noteq> [] \<and> rows = written @ rest)"
proof -
  have sel: "select_target cap (layout fs) (seg_name k) rows = Some (seg_name (length fs), True, 0)"
    using assms by (simp add: select_target_def Let_def exists_layout path_getsize_layout get_next_layout)
  have fresh: "\<not> exists (layout fs) (seg_name (length fs))"
    by (simp add: exists_layout)
  have csv: "to_csv (layout fs) (seg_name (length fs)) True cols w
               = layout (fs @ [\<lparr>content = cols # map row_line w, unreadable = False\<rparr>])" for w
    using to_csv_layout [of "length fs" fs True cols w] by (simp add: append_lines_def)
  have "\<exists>written rest t1.
               writer_step cap cols (layout fs) (seg_name k) rows
                 = Some (layout (fs @ [\<lparr>content = cols # map row_line written, unreadable = False\<rparr>]),
                         t1, rest)
               \<and> written \<noteq> [] \<and> rows = written @ rest"
  proof (cases "1 < length rows \<and> cap < length rows * estimated_bytes_per_row")
    case True
    define c where "c = num_rows_for_chunk cap"
    have "0 < c"
      by (simp add: c_def num_rows_for_chunk_def)
    with assms(2) have w: "take c rows \<noteq> []"
      by (cases rows) auto
    have "\<exists>t1. writer_step cap cols (layout fs) (seg_name k) rows
            = Some (layout (fs @ [\<lparr>content = cols # map row_line (take c rows), unreadable = False\<rparr>]),
                    t1, drop c rows)"
      using True by (simp add: writer_step_def sel csv Let_def get_next_layout c_def)
    with w show ?thesis
      by (metis append_take_drop_id)
  next
    case False
    then have "writer_step cap cols (layout fs) (seg_name k) rows
            = Some (layout (fs @ [\<lparr>content = cols # map row_line rows, unreadable = False\<rparr>]),
                    seg_name (length fs), [])"
      by (auto simp: writer_step_def sel csv Let_def)
    with assms(2) show ?thesis
      by (metis append_Nil2)
  qed
  with sel fresh show ?thesis
    by simp
qed

theorem rollover_creates_next_segment_witness:
  "select_target 200 (layout [segment_of [29, 30]]) (seg_name 0) [bar_row 31]
     = Some (seg_name 1, True, 0)
   \<and> \<not> exists (layout [segment_of [29, 30]]) (seg_name 1)
   \<and> (\<exists>written rest t1.
         writer_step 200 header_line (layout [segment_of [29, 30]]) (seg_name 0) [bar_row 31]
           = Some (layout ([segment_of [29, 30]]
                           @ [\<lparr>content = header_line # map row_line written, unreadable = False\<rparr>]),
                   t1, rest)
         \<and> written \<noteq> [] \<and> [bar_row 31] = written @ rest)"
proof -
  have size: "getsize (segment_of [29, 30]) = 126"
    by code_simp
  have a: "0 < length [segment_of [29, 30]]"
    by simp
  have b: "[bar_row 31] \<noteq> []"
    by simp
  have c: "0 < getsize ([segment_of [29, 30]] ! 0)"
    by (simp add: size)
  have d: "200 < getsize ([segment_of [29, 30]] ! 0) + length [bar_row 31] * estimated_bytes_per_row"
    by (simp add: size estimated_bytes_per_row_def)
  show ?thesis
    using rollover_creates_next_segment [OF a b c d, of header_line] by simp
qed

section \<open>The whole loop of the Segment Writer\<close>

lemma records_grow:
  assumes "k < length fs"
  shows "segment_records ((fs ! k)\<lparr>content := content (fs ! k) @ lines_for fs k cols w\<rparr>)
           = segment_records (fs ! k) @ map row_line w"
  using assms by (cases "content (fs ! k)") (simp_all add: segment_records_def lines_for_def)

lemma records_append_lines_last:
  assumes "kk = length fs \<or> (fs \<noteq> [] \<and> kk = length fs - 1)"
  shows "concat (map segment_records (append_lines fs kk (lines_for fs kk cols w)))
           = concat (map segment_records fs) @ map row_line w"
proof (cases "kk = length fs")
  case True
  then show ?thesis
    by (simp add: append_lines_def lines_for_def segment_records_def)
next
  case False
  with assms have ne: "fs \<noteq> []" and kk: "kk = length fs - 1"
    by simp_all
  then obtain xs x where fs: "fs = xs @ [x]"
    by (metis rev_exhaust)
  with kk have kx: "kk = length xs" by simp
  have "kk < length fs"
    using ne kk by (cases fs) simp_all
  then have g: "segment_records ((fs ! kk)\<lparr>content := content (fs ! kk) @ lines_for fs kk cols w\<rparr>)
                  = segment_records (fs ! kk) @ map row_line w"
    by (rule records_grow)
  have "append_lines fs kk (lines_for fs kk cols w)
          = xs @ [(fs ! kk)\<lparr>content := content (fs ! kk) @ lines_for fs kk cols w\<rparr>]"
    unfolding append_lines_def using \<open>kk < length fs\<close> by (simp add: fs kx)
  then show ?thesis
    using g by (simp add: fs kx)
qed

lemma mset_concat_grow:
  "k < length xs \<Longrightarrow> mset (concat (xs[k := xs ! k @ ys])) = mset (concat xs) + mset ys"
proof (induction xs arbitrary: k)
  case Nil
  then show ?case by simp
next
  case (Cons x xs)
  then show ?case
    by (cases k) simp_all
qed

lemma records_append_lines_mset:
  assumes "kk \<le> length fs"
  shows "mset (concat (map segment_records (append_lines fs kk (lines_for fs kk cols w))))
           = mset (concat (map segment_records fs)) + mset (map row_line w)"
proof (cases "kk = length fs")
  case True
  then show ?thesis
    using records_append_lines_last [of kk fs cols w] by simp
next
  case False
  with assms have lt: "kk < length fs" by simp
  have "map segment_records (append_lines fs kk (lines_for fs kk cols w))
          = (map segment_records fs)[kk := map segment_records fs ! kk @ map row_line w]"
    using lt by (simp add: append_lines_def map_update records_grow)
  then show ?thesis
    using lt mset_concat_grow [of kk "map segment_records fs" "map row_line w"] by simp
qed

lemma write_loop_layout:
  assumes "k = length fs \<or> (fs \<noteq> [] \<and> k = length fs - 1)"
  shows "\<exists>fs'. write_loop cap cols (layout fs) (seg_name k) rows = Some (layout fs')
           \<and> concat (map segment_records fs') = concat (map segment_records fs) @ map row_line rows"
  using assms
proof (induction "length rows" arbitrary: rows fs k rule: less_induct)
  case less
  show ?case
  proof (cases "rows = []")
    case True
    then have "write_loop cap cols (layout fs) (seg_name k) rows = Some (layout fs)"
      by (simp add: write_loop.simps)
    with True show ?thesis
      by (intro exI [of _ fs]) simp
  next
    case False
    have kle: "k \<le> length fs"
      using less.prems by auto
    from writer_step_layout [OF kle False, of cap cols]
    obtain kk written rest k1 where
      step: "writer_step cap cols (layout fs) (seg_name k) rows
               = Some (layout (append_lines fs kk (lines_for fs kk cols written)), seg_name k1, rest)"
      and kk: "kk = k \<or> kk = length fs"
      and split: "rows = written @ rest" and w: "written \<noteq> []"
      and nxt: "rest \<noteq> [] \<longrightarrow> k1 = length (append_lines fs kk (lines_for fs kk cols written))"
      by blast
    define fs1 where "fs1 = append_lines fs kk (lines_for fs kk cols written)"
    have kk': "kk = length fs \<or> (fs \<noteq> [] \<and> kk = length fs - 1)"
      using kk less.prems by auto
    have rec1: "concat (map segment_records fs1) = concat (map segment_records fs) @ map row_line written"
      unfolding fs1_def using kk' by (rule records_append_lines_last)
    have unfold: "write_loop cap cols (layout fs) (seg_name k) rows
                    = write_loop cap cols (layout fs1) (seg_name k1) rest"
      using False step by (subst write_loop.simps) (simp add: fs1_def)
    show ?thesis
    proof (cases "rest = []")
      case True
      then have "write_loop cap cols (layout fs) (seg_name k) rows = Some (layout fs1)"
        using unfold by (simp add: write_loop.simps)
      with rec1 split True show ?thesis
        by auto
    next
      case rest: False
      then have k1: "k1 = length fs1"
        using nxt by (simp add: fs1_def)
      have shorter: "length rest < length rows"
        using split w by (cases written) simp_all
      from less.hyps [OF shorter, of k1 fs1] k1
      obtain fs' where "write_loop cap cols (layout fs1) (seg_name k1) rest = Some (layout fs')"
        and "concat (map segment_records fs') = concat (map segment_records fs1) @ map row_line rest"
        by auto
      with unfold rec1 split show ?thesis
        by auto
    qed
  qed
qed

lemma chunk_formula: "int (num_rows_for_chunk cap) = max 1 \<lfloor>real cap / 150 * 0.90\<rfloor>"
proof -
  have "real cap / 150 * 0.90 = real (cap * 9) / real 1500"
    by simp
  then have "\<lfloor>real cap / 150 * 0.90\<rfloor> = int (cap * 9 div 1500)"
    by (simp only: floor_divide_of_nat_eq)
  then show ?thesis
    by (simp add: num_rows_for_chunk_def estimated_bytes_per_row_def)
qed

lemma chunk_shorter:
  assumes "1 < n" and "cap < n * estimated_bytes_per_row"
  shows "num_rows_for_chunk cap < n"
proof -
  have "cap * 9 < n * 1500"
    using assms(2) by (simp add: estimated_bytes_per_row_def)
  then have "cap * 9 div 1500 < n"
    by (simp add: div_less_iff_less_mult)
  with assms(1) show ?thesis
    by (simp add: num_rows_for_chunk_def estimated_bytes_per_row_def)
qed

text \<open>
  Claim C5. In a gapless directory, when the target of a pass is new or empty, more
  than one row is pending and 150 bytes per pending row exceed the cap, the pass writes
  the first \<open>max(1, floor(cap / 150 * 0.90))\<close> rows with the header line to the target,
  keeps the rows after them, which are at least one, and takes as the next target the
  segment with the next ordinal, which does not exist yet. The loop returns, and the
  records of the directory afterwards are those it had before together with every row
  of the batch exactly once.
\<close>

theorem oversize_batch_is_split:
  assumes "k \<le> length fs" and "k < length fs \<longrightarrow> getsize (fs ! k) = 0"
    and "1 < length rows" and "cap < length rows * estimated_bytes_per_row"
  shows "\<exists>fs1 fs'.
      int (num_rows_for_chunk cap) = max 1 \<lfloor>real cap / 150 * 0.90\<rfloor>
      \<and> to_csv (layout fs) (seg_name k) True cols (take (num_rows_for_chunk cap) rows) = layout fs1
      \<and> writer_step cap cols (layout fs) (seg_name k) rows
          = Some (layout fs1, seg_name (length fs1), drop (num_rows_for_chunk cap) rows)
      \<and> drop (num_rows_for_chunk cap) rows \<noteq> []
      \<and> \<not> exists (layout fs1) (seg_name (length fs1))
      \<and> write_loop cap cols (layout fs) (seg_name k) rows = Some (layout fs')
      \<and> mset (stored_records (layout fs'))
          = mset (stored_records (layout fs)) + mset (map row_line rows)"
proof -
  define c where "c = num_rows_for_chunk cap"
  define fs1 where "fs1 = append_lines fs k (lines_for fs k cols (take c rows))"
  have empty: "k < length fs \<Longrightarrow> content (fs ! k) = []"
    using assms(2) by (simp add: getsize_zero)
  have c_lt: "c < length rows"
    unfolding c_def using assms(3,4) by (rule chunk_shorter)
  then have rest: "drop c rows \<noteq> []"
    by simp
  have rows_ne: "rows \<noteq> []"
    using assms(3) by auto
  have sel: "select_target cap (layout fs) (seg_name k) rows = Some (seg_name k, True, 0)"
    using assms(2) by (auto simp: select_target_def Let_def exists_layout path_getsize_layout)
  have csv: "to_csv (layout fs) (seg_name k) True cols (take c rows) = layout fs1"
    using to_csv_layout [OF assms(1), of True cols "take c rows"] empty
    by (auto simp: fs1_def lines_for_def)
  have step: "writer_step cap cols (layout fs) (seg_name k) rows
                = Some (layout fs1, seg_name (length fs1), drop c rows)"
    using assms(3,4) rest by (simp add: writer_step_def sel Let_def c_def [symmetric] csv get_next_layout)
  have fresh: "\<not> exists (layout fs1) (seg_name (length fs1))"
    by (simp add: exists_layout)
  have unfold: "write_loop cap cols (layout fs) (seg_name k) rows
                  = write_loop cap cols (layout fs1) (seg_name (length fs1)) (drop c rows)"
    using rows_ne step by (subst write_loop.simps) simp
  obtain fs' where loop: "write_loop cap cols (layout fs1) (seg_name (length fs1)) (drop c rows)
                            = Some (layout fs')"
    and rec: "concat (map segment_records fs')
                = concat (map segment_records fs1) @ map row_line (drop c rows)"
    using write_loop_layout [of "length fs1" fs1 cap cols "drop c rows"] by auto
  have "mset (concat (map segment_records fs1))
          = mset (concat (map segment_records fs)) + mset (map row_line (take c rows))"
    unfolding fs1_def using assms(1) by (rule records_append_lines_mset)
  then have "mset (concat (map segment_records fs'))
          = mset (concat (map segment_records fs)) + mset (map row_line (take c rows @ drop c rows))"
    unfolding rec by (simp del: append_take_drop_id)
  then have all: "mset (stored_records (layout fs'))
          = mset (stored_records (layout fs)) + mset (map row_line rows)"
    by (simp add: stored_records_layout)
  from chunk_formula [of cap] csv step rest fresh unfold loop all show ?thesis
    unfolding c_def by (intro exI [of _ fs1] exI [of _ fs']) simp
qed

theorem oversize_batch_is_split_witness:
  "num_rows_for_chunk 300 = 1
   \<and> (\<exists>fs1 fs'.
        to_csv (layout [empty_file]) (seg_name 0) True header_line
            (take (num_rows_for_chunk 300) three_bars) = layout fs1
      \<and> writer_step 300 header_line (layout [empty_file]) (seg_name 0) three_bars
          = Some (layout fs1, seg_name (length fs1), drop (num_rows_for_chunk 300) three_bars)
      \<and> drop (num_rows_for_chunk 300) three_bars \<noteq> []
      \<and> write_loop 300 header_line (layout [empty_file]) (seg_name 0) three_bars = Some (layout fs')
      \<and> mset (stored_records (layout fs'))
          = mset (stored_records (layout [empty_file])) + mset (map row_line three_bars))"
proof -
  have a: "0 \<le> length [empty_file]"
    by simp
  have b: "0 < length [empty_file] \<longrightarrow> getsize ([empty_file] ! 0) = 0"
    by (simp add: empty_file_def getsize_def)
  have c: "1 < length three_bars"
    by (simp add: three_bars_def)
  have d: "300 < length three_bars * estimated_bytes_per_row"
    by (simp add: three_bars_def estimated_bytes_per_row_def)
  have e: "num_rows_for_chunk 300 = 1"
    by (simp add: num_rows_for_chunk_def estimated_bytes_per_row_def)
  from oversize_batch_is_split [OF a b c d, of header_line]
  obtain fs1 fs' where
    "to_csv (layout [empty_file]) (seg_name 0) True header_line
            (take (num_rows_for_chunk 300) three_bars) = layout fs1"
    "writer_step 300 header_line (layout [empty_file]) (seg_name 0) three_bars
          = Some (layout fs1, seg_name (length fs1), drop (num_rows_for_chunk 300) three_bars)"
    "drop (num_rows_for_chunk 300) three_bars \<noteq> []"
    "write_loop 300 header_line (layout [empty_file]) (seg_name 0) three_bars = Some (layout fs')"
    "mset (stored_records (layout fs'))
          = mset (stored_records (layout [empty_file])) + mset (map row_line three_bars)"
    by blast
  with e show ?thesis
    by blast
qed

section \<open>The stored history across a run\<close>

lemma to_datetime_format_iff:
  "to_datetime_format fmt idx = Some vs \<longleftrightarrow>
     map (\<lambda>s. map_option value_ns (strptime fmt s)) idx = map Some vs"
  by (simp add: to_datetime_format_def those_map_Some)

lemma to_datetime_format_append:
  "to_datetime_format fmt (a @ b) = Some vs \<longleftrightarrow>
     (\<exists>va vb. to_datetime_format fmt a = Some va \<and> to_datetime_format fmt b = Some vb
        \<and> vs = va @ vb)"
  unfolding to_datetime_format_iff
  by (auto simp: map_eq_append_conv append_eq_map_conv)

lemma to_datetime_written:
  assumes "list_all (\<lambda>r. valid_fields (fst r) \<and> year (fst r) < 10000 \<and> nanos (fst r) = 0
                          \<and> utcoffset (fst r) = Some 0) rows"
  shows "to_datetime_format known_csv_datetime_format (map fst (map row_line rows))
           = Some (map (\<lambda>r. value_ns (fst r)) rows)"
  unfolding to_datetime_format_iff
  using assms by (induction rows) (simp_all add: row_line_def strptime_strftime)

lemma sorted_le_last:
  fixes xs :: "int list"
  assumes "sorted xs" and "x \<in> set xs"
  shows "x \<le> last xs"
proof -
  obtain i where i: "i < length xs" and x: "x = xs ! i"
    using assms(2) unfolding in_set_conv_nth by blast
  have "xs ! i \<le> xs ! (length xs - 1)"
    using i assms(1) by (intro sorted_nth_mono) auto
  moreover have "xs \<noteq> []"
    using assms(2) by auto
  ultimately show ?thesis
    by (simp add: x last_conv_nth)
qed

lemma strict_imp_sorted:
  fixes xs :: "int list"
  shows "sorted_wrt (<) xs \<Longrightarrow> sorted xs"
  by (rule sorted_wrt_mono_rel [of xs "(<)"]) auto

lemma valid_timestamps_strict:
  assumes "to_datetime_format known_csv_datetime_format (segment_index f) = Some vs"
  shows "valid_timestamps lenient f = vs"
proof -
  have "dropna (map Some ws) = ws" for ws
    by (induction ws) (simp_all add: dropna_def List.map_filter_simps)
  with assms show ?thesis
    by (simp add: valid_timestamps_def parse_index_def)
qed

lemma resolver_finds_end:
  assumes parsed: "to_datetime_format known_csv_datetime_format (stored_index (layout fs)) = Some vs"
    and incr: "sorted_wrt (<) vs"
    and ne: "fs \<noteq> []"
    and listing: "last_csv (layout fs) = Some (seg_name (length fs - 1))"
    and readable: "\<not> unreadable (last fs)"
    and records: "segment_index (last fs) \<noteq> []"
  shows "get_latest_timestamp_from_dir lenient (layout fs) = Some (last vs) \<and> vs \<noteq> []"
proof -
  obtain xs x where fs: "fs = xs @ [x]"
    using ne by (metis rev_exhaust)
  have idx: "stored_index (layout fs) = concat (map segment_index xs) @ segment_index x"
    by (simp add: stored_index_segments fs)
  from parsed obtain va vb where
    vb: "to_datetime_format known_csv_datetime_format (segment_index x) = Some vb"
    and vs: "vs = va @ vb"
    unfolding idx to_datetime_format_append by blast
  have "length vb = length (segment_index x)"
    using vb unfolding to_datetime_format_iff by (metis length_map)
  with records have vb_ne: "vb \<noteq> []"
    by (auto simp: fs)
  have "last_segment (layout fs) = Some (last fs)"
    using map_of_layout [of "length fs - 1" fs] ne
    by (simp add: last_segment_def listing last_conv_nth)
  then have seg: "last_segment (layout fs) = Some x"
    by (simp add: fs)
  have valid: "valid_timestamps lenient x = vb"
    using vb by (rule valid_timestamps_strict)
  have "sorted vb"
    using incr by (simp add: vs sorted_wrt_append strict_imp_sorted)
  then have "Max (set vb) = last vb"
    using vb_ne by (intro Max_eqI) (auto intro: sorted_le_last)
  moreover have "\<not> unreadable x" and "segment_index x \<noteq> []"
    using readable records by (simp_all add: fs)
  ultimately have "get_latest_timestamp_from_dir lenient (layout fs) = Some (last vb)"
    using vb_ne by (simp add: resolver_by_cases seg valid)
  with vb_ne show ?thesis
    by (simp add: vs)
qed

section \<open>A ticker that is up to date\<close>

lemma resolver_empty: "get_latest_timestamp_from_dir lenient [] = None"
  by (simp add: get_latest_timestamp_from_dir_def last_csv_def glob_csv_def)

text \<open>
  Claim C8. When the resolver reports a latest timestamp and this timestamp plus one
  minute is at or after the end instant of the run, the run returns at once: the
  provider is not called, and the directory, which already existed, is left exactly as
  it was: no file is created and none is modified.
\<close>

theorem up_to_date_is_noop:
  assumes "get_latest_timestamp_from_dir lenient (makedirs fs) = Some latest"
    and "latest + Timedelta_minutes 1 \<ge> now"
  shows "fs = Some (makedirs fs) \<and>
         download_and_store_data cap lenient yf_download now fs =
           Some \<lparr>final_dir = makedirs fs, fetch_calls = [], outcome = UpToDate\<rparr>"
proof -
  have "fs \<noteq> None"
  proof
    assume "fs = None"
    then have "get_latest_timestamp_from_dir lenient (makedirs fs) = None"
      by (simp add: makedirs_def resolver_empty)
    with assms(1) show False by simp
  qed
  then have "fs = Some (makedirs fs)"
    by (auto simp: makedirs_def)
  moreover have "download_and_store_data cap lenient yf_download now fs =
           Some \<lparr>final_dir = makedirs fs, fetch_calls = [], outcome = UpToDate\<rparr>"
    using assms by (simp add: download_and_store_data_def Let_def)
  ultimately show ?thesis by simp
qed

theorem up_to_date_is_noop_witness:
  "download_and_store_data MAX_FILE_SIZE_BYTES lenient_none provider_down
      (value_ns (minute_bar 30) + 30000000000) (Some (layout [segment_of [29, 30]]))
   = Some \<lparr>final_dir = layout [segment_of [29, 30]], fetch_calls = [], outcome = UpToDate\<rparr>"
proof -
  have a: "get_latest_timestamp_from_dir lenient_none (makedirs (Some (layout [segment_of [29, 30]])))
             = Some (value_ns (minute_bar 30))"
    by code_simp
  have b: "value_ns (minute_bar 30) + 30000000000 \<le> value_ns (minute_bar 30) + Timedelta_minutes 1"
    by (simp add: Timedelta_minutes_def)
  show ?thesis
    using up_to_date_is_noop [OF a b, of MAX_FILE_SIZE_BYTES provider_down]
    by (simp add: makedirs_def)
qed

section \<open>Configuration: a repeated group label\<close>

lemma parse_lines_Cons:
  "parse_lines m (l # ls) =
     (case line_entry l of None \<Rightarrow> parse_lines m ls | Some (k, v) \<Rightarrow> parse_lines (dict_set k v m) ls)"
  by (simp add: line_entry_def Let_def)

lemma parse_lines_append: "parse_lines m (xs @ ys) = parse_lines (parse_lines m xs) ys"
proof (induction xs arbitrary: m)
  case Nil
  show ?case by simp
next
  case (Cons l xs)
  show ?case
  proof (cases "line_entry l")
    case None
    then show ?thesis
      using Cons.IH by (simp add: parse_lines_Cons del: parse_lines.simps)
  next
    case (Some kv)
    obtain k v where "kv = (k, v)" by (cases kv)
    with Some show ?thesis
      using Cons.IH by (simp add: parse_lines_Cons del: parse_lines.simps)
  qed
qed

lemma map_of_replace_other:
  "x \<noteq> k \<Longrightarrow> map_of (map (\<lambda>(k', v'). if k' = k then (k', v) else (k', v')) m) x = map_of m x"
  by (induction m) auto

lemma map_of_replace_same:
  "k \<in> fst ` set m \<Longrightarrow> map_of (map (\<lambda>(k', v'). if k' = k then (k', v) else (k', v')) m) k = Some v"
  by (induction m) auto

lemma map_of_snoc: "k \<notin> fst ` set m \<Longrightarrow> map_of (m @ [(k, v)]) x = ((map_of m)(k \<mapsto> v)) x"
proof (induction m)
  case Nil
  show ?case by simp
next
  case (Cons p m)
  obtain a b where p: "p = (a, b)" by (cases p)
  from Cons.prems have "k \<noteq> a" and "k \<notin> fst ` set m" by (auto simp: p)
  with Cons.IH show ?case
    by (auto simp: p simp del: map_of_append)
qed

lemma map_of_dict_set: "map_of (dict_set k v m) x = ((map_of m)(k \<mapsto> v)) x"
proof (cases "k \<in> fst ` set m")
  case True
  then show ?thesis
    by (cases "x = k") (simp_all add: dict_set_def map_of_replace_other map_of_replace_same)
next
  case False
  then have "dict_set k v m = m @ [(k, v)]"
    by (simp add: dict_set_def)
  then show ?thesis
    using map_of_snoc [OF False] by simp
qed

lemma keys_replace: "map fst (map (\<lambda>(k', v'). if k' = k then (k', v) else (k', v')) m) = map fst m"
  by (induction m) auto

lemma distinct_dict_set: "distinct (map fst m) \<Longrightarrow> distinct (map fst (dict_set k v m))"
  by (cases "k \<in> fst ` set m") (simp_all add: dict_set_def keys_replace del: map_map)

lemma distinct_parse_lines: "distinct (map fst m) \<Longrightarrow> distinct (map fst (parse_lines m ls))"
proof (induction ls arbitrary: m)
  case Nil
  then show ?case by simp
next
  case (Cons l ls)
  show ?case
  proof (cases "line_entry l")
    case None
    then show ?thesis
      using Cons by (simp add: parse_lines_Cons del: parse_lines.simps)
  next
    case (Some kv)
    obtain k v where "kv = (k, v)" by (cases kv)
    with Some show ?thesis
      using Cons by (simp add: parse_lines_Cons distinct_dict_set del: parse_lines.simps)
  qed
qed

lemma parse_lines_other:
  "\<forall>l \<in> set ls. \<forall>v. line_entry l \<noteq> Some (g, v) \<Longrightarrow> map_of (parse_lines m ls) g = map_of m g"
proof (induction ls arbitrary: m)
  case Nil
  then show ?case by simp
next
  case (Cons l ls)
  show ?case
  proof (cases "line_entry l")
    case None
    with Cons show ?thesis by (simp add: parse_lines_Cons del: parse_lines.simps)
  next
    case (Some kv)
    obtain k v where kv: "kv = (k, v)" by (cases kv)
    with Some Cons.prems have "k \<noteq> g" by auto
    with Cons Some kv show ?thesis
      by (simp add: parse_lines_Cons map_of_dict_set del: parse_lines.simps)
  qed
qed

text \<open>
  Claim C10. When two well-formed lines of the configuration file carry the same group
  label, the mapping that \<open>parse_config\<close> returns holds for this label the ticker list
  of the later line only: the label occurs once among the keys, and its value is the
  list of the last line with this label, whatever lines stand before, between and after
  the two. The tickers of the earlier line are dropped without a warning.
\<close>

theorem parse_config_later_line_wins:
  assumes "line_entry l1 = Some (g, t1)" and "line_entry l2 = Some (g, t2)"
    and "\<forall>l \<in> set post. \<forall>v. line_entry l \<noteq> Some (g, v)"
  shows "\<exists>cfg. parse_config (Text (pre @ [l1] @ mid @ [l2] @ post)) = Inr (Some cfg)
           \<and> map_of cfg g = Some t2 \<and> distinct (map fst cfg)"
proof -
  let ?m = "parse_lines [] (pre @ [l1] @ mid)"
  have "parse_lines [] ((pre @ [l1] @ mid) @ l2 # post) = parse_lines (dict_set g t2 ?m) post"
    unfolding parse_lines_append [of "[]" "pre @ [l1] @ mid" "l2 # post"]
    using assms(2) by (simp only: parse_lines_Cons option.case prod.case)
  then have eq: "parse_lines [] (pre @ [l1] @ mid @ [l2] @ post) = parse_lines (dict_set g t2 ?m) post"
    by simp
  define cfg where "cfg = parse_lines [] (pre @ [l1] @ mid @ [l2] @ post)"
  have "map_of (parse_lines (dict_set g t2 ?m) post) g = Some t2"
    using parse_lines_other [OF assms(3)] by (simp add: map_of_dict_set)
  then have looked_up: "map_of cfg g = Some t2"
    unfolding cfg_def eq .
  have keys: "distinct (map fst cfg)"
    unfolding cfg_def by (rule distinct_parse_lines) simp
  have "parse_config (Text (pre @ [l1] @ mid @ [l2] @ post)) = Inr (Some cfg)"
    by (simp add: parse_config_def cfg_def)
  with looked_up keys show ?thesis
    by blast
qed

theorem parse_config_later_line_wins_witness:
  "\<exists>cfg. parse_config (Text [''# groups'', ''tech: AAA'', ''energy: XOM'',
                                ''tech'' @ [no_break_space] @ '': CCC'', ''bad line''])
            = Inr (Some cfg)
         \<and> map_of cfg ''tech'' = Some [''CCC''] \<and> distinct (map fst cfg)"
proof -
  have a: "line_entry ''tech: AAA'' = Some (''tech'', [''AAA''])" by code_simp
  have b: "line_entry (''tech'' @ [no_break_space] @ '': CCC'') = Some (''tech'', [''CCC''])"
    by code_simp
  have c: "\<forall>l \<in> set [''bad line'']. \<forall>v. line_entry l \<noteq> Some (''tech'', v)"
  proof -
    have "line_entry ''bad line'' = None" by code_simp
    then show ?thesis by simp
  qed
  show ?thesis
    using parse_config_later_line_wins [OF a b c, of "[''# groups'']" "[''energy: XOM'']"] by simp
qed

section \<open>The exit status of the program\<close>

text \<open>
  Claim C9 states that the process exits with a non-zero code when the configuration
  cannot be loaded, as for a missing configuration file. In the source,
  \<^verbatim>\<open>parse_config\<close> returns \<^verbatim>\<open>None\<close> for a missing file, and the main block prints
  \<^verbatim>\<open>Exiting due to configuration error.\<close> and calls \<^verbatim>\<open>exit()\<close> without a status: the
  process ends with the exit code 0 on this error path.
\<close>

theorem missing_config_exits_zero:
  "parse_config Missing = Inr None \<and> main_exit_status Missing never_escapes = 0"
  by (simp add: main_exit_status_def parse_config_def)


end
